theory Spec2Isabelle
  imports Complex_Main "HOL-Library.Multiset"
begin

text \<open>
  A model of the chart runtime of the embedding-atlas viewer: scale inference, mark
  shaping, aggregate inference, the encoding resolver, the selection of the count plot
  and the life cycle of the class \<^verbatim>\<open>ChartRuntime\<close>.

  Where the modules are found in the source tree:
  \<^item> runtime.ts: lines 384 to 1337 of packages/viewer/src/charts/chart_types.ts;
  \<^item> common/aggregate.ts: lines 469 to 773 of unnamed/part_007;
  \<^item> basic/CountPlot.svelte: lines 30 to 371 of unnamed/part_004;
  \<^item> spec.ts: unnamed/part_006;
  \<^item> common/types.ts: packages/viewer/src/charts/common/types.ts.
\<close>

section \<open>Data values of the chart runtime\<close>

text \<open>
  A JavaScript number is either a finite value or one of the three non-finite values.
  Finite values are modelled as reals: scale inference only compares them, and where
  stacking adds them the rounding of the sum to a double is a parameter.
\<close>

datatype jsnum = Fin real | NaN | PosInf | NegInf

text \<open>
  \<^verbatim>\<open>type DataValue = string | number | [number, number] | null | undefined\<close>
  (runtime.ts).
\<close>

datatype DataValue = Str string | Number jsnum | Arr2 jsnum jsnum | Null | Undefined

datatype ScaleType = Linear | Log | Symlog | Band

datatype Kind = Quantitative | Nominal

datatype Channel = ChX | ChY | ChColor | ChSize

datatype RangeSpec = RangeList "DataValue list" | RangeName string

text \<open>\<^verbatim>\<open>interface ScaleHints\<close>; the predicate function is kept abstract.\<close>

record 'p ScaleHints =
  h_kind :: Kind
  h_type :: "ScaleType option"
  h_domain :: "DataValue list option"
  h_specialValues :: "string list option"
  h_includeZero :: "bool option"
  h_title :: "string option"
  h_predicate :: "'p option"

text \<open>\<^verbatim>\<open>interface Scale\<close> of the chart specification (spec.ts).\<close>

record Scale =
  s_type :: "ScaleType option"
  s_domain :: "DataValue list option"
  s_specialValues :: "string list option"
  s_constant :: "real option"
  s_range :: "RangeSpec option"

text \<open>\<^verbatim>\<open>interface ScaleConfig\<close> (common/types.ts).\<close>

record ScaleConfig =
  c_type :: ScaleType
  c_domain :: "DataValue list"
  c_specialValues :: "string list option"
  c_constant :: "real option"
  c_range :: "RangeSpec option"

section \<open>Small pieces of the JavaScript library\<close>

text \<open>\<^verbatim>\<open>a ?? b\<close> on an optional value.\<close>

definition nullish :: "'a option \<Rightarrow> 'a \<Rightarrow> 'a" where
  "nullish a b = (case a of None \<Rightarrow> b | Some x \<Rightarrow> x)"

definition nullish_opt :: "'a option \<Rightarrow> 'a option \<Rightarrow> 'a option" where
  "nullish_opt a b = (case a of None \<Rightarrow> b | Some x \<Rightarrow> Some x)"

text \<open>\<^verbatim>\<open>Array.from(new Set(xs))\<close>: the first occurrence of each element, in order.\<close>

fun js_set_of :: "'a list \<Rightarrow> 'a list" where
  "js_set_of [] = []"
| "js_set_of (x # xs) = x # filter (\<lambda>y. y \<noteq> x) (js_set_of xs)"

text \<open>\<^verbatim>\<open>xs.join(sep)\<close> on strings.\<close>

fun js_join :: "string \<Rightarrow> string list \<Rightarrow> string" where
  "js_join sep [] = []"
| "js_join sep [x] = x"
| "js_join sep (x # y # ys) = x @ sep @ js_join sep (y # ys)"

text \<open>
  The characters \<^verbatim>\<open>String.prototype.trim\<close> removes, as far as they exist in
  an 8-bit character: tab, line feed, vertical tab, form feed, carriage return, space
  and the no-break space.
\<close>

definition js_whitespace :: "char \<Rightarrow> bool" where
  "js_whitespace c = (of_char c \<in> {9, 10, 11, 12, 13, 32, 160 :: nat})"

text \<open>\<^verbatim>\<open>x.trim() != ""\<close>\<close>

definition trim_nonempty :: "string \<Rightarrow> bool" where
  "trim_nonempty s = (\<not> list_all js_whitespace s)"

text \<open>\<^verbatim>\<open>xs.flat()\<close> on a column: an interval contributes its two numbers.\<close>

fun flat1 :: "DataValue \<Rightarrow> DataValue list" where
  "flat1 (Arr2 a b) = [Number a, Number b]"
| "flat1 v = [v]"

definition flat :: "DataValue list \<Rightarrow> DataValue list" where
  "flat vals = concat (map flat1 vals)"

text \<open>
  \<^verbatim>\<open>d3.extent(values, valueof)\<close> of d3-array: values whose accessor gives
  undefined are skipped; the first defined value starts both ends, later ones move them.
\<close>

definition d3_extent_step :: "('a \<Rightarrow> real option) \<Rightarrow> (real \<times> real) option \<Rightarrow> 'a \<Rightarrow> (real \<times> real) option" where
  "d3_extent_step valueof acc x =
     (case valueof x of
        None \<Rightarrow> acc
      | Some v \<Rightarrow>
          (case acc of
             None \<Rightarrow> Some (v, v)
           | Some (mn, mx) \<Rightarrow> Some (if mn > v then v else mn, if mx < v then v else mx)))"

definition d3_extent :: "('a \<Rightarrow> real option) \<Rightarrow> 'a list \<Rightarrow> real option \<times> real option" where
  "d3_extent valueof values =
     (case foldl (d3_extent_step valueof) None values of
        None \<Rightarrow> (None, None)
      | Some (mn, mx) \<Rightarrow> (Some mn, Some mx))"

section \<open>Scale hints and scale inference (runtime.ts)\<close>

text \<open>\<^verbatim>\<open>function mergeScaleHints(current, value)\<close>\<close>

definition mergeScaleHints :: "'p ScaleHints \<Rightarrow> 'p ScaleHints \<Rightarrow> 'p ScaleHints" where
  "mergeScaleHints current val =
     (let titles = js_set_of (filter (\<lambda>x. case x of None \<Rightarrow> False | Some t \<Rightarrow> trim_nonempty t)
                                [h_title current, h_title val]);
          newTitle = (if length titles > 0 then Some (js_join '', '' (map the titles)) else None)
      in \<lparr> h_kind = h_kind val,
           h_type = nullish_opt (h_type current) (h_type val),
           h_domain = Some (nullish (h_domain current) [] @ nullish (h_domain val) []),
           h_specialValues = Some (nullish (h_specialValues current) [] @ nullish (h_specialValues val) []),
           h_includeZero = (if h_includeZero current = Some True \<or> h_includeZero val = Some True
                            then Some True else None),
           h_title = newTitle,
           h_predicate = nullish_opt (h_predicate current) (h_predicate val) \<rparr>)"

text \<open>\<^verbatim>\<open>function finiteExtent(values)\<close>: the accessor keeps finite numbers only.\<close>

fun finite_number :: "DataValue \<Rightarrow> real option" where
  "finite_number (Number (Fin r)) = Some r"
| "finite_number v = None"

definition finiteExtent :: "DataValue list \<Rightarrow> real option \<times> real option" where
  "finiteExtent values = d3_extent finite_number values"

text \<open>An entry of the array \<^verbatim>\<open>[min, max]\<close> that finiteExtent returns.\<close>

fun extent_entry :: "real option \<Rightarrow> DataValue" where
  "extent_entry None = Undefined"
| "extent_entry (Some r) = Number (Fin r)"

fun string_value :: "DataValue \<Rightarrow> string option" where
  "string_value (Str s) = Some s"
| "string_value v = None"

text \<open>\<^verbatim>\<open>x.flat().filter((v) => typeof v == "string")\<close>\<close>

definition strings_of :: "DataValue list \<Rightarrow> string list" where
  "strings_of vals = List.map_filter string_value (flat vals)"

text \<open>\<^verbatim>\<open>function inferScale(spec, hints, data, channel)\<close>\<close>

definition inferScale :: "Scale \<Rightarrow> 'p ScaleHints \<Rightarrow> DataValue list list \<Rightarrow> Channel \<Rightarrow> ScaleConfig" where
  "inferScale spec hints data channel =
     (case h_kind hints of
        Quantitative \<Rightarrow>
          (let parts = concat (map (\<lambda>vals. case finiteExtent (flat vals) of
                                              (a, b) \<Rightarrow> [extent_entry a, extent_entry b])
                                   (nullish (h_domain hints) [] # data));
               (min0, max0) = (case finiteExtent parts of
                                 (Some a, Some b) \<Rightarrow> (a, b)
                               | _ \<Rightarrow> (0, 1));
               (min1, max1) = (if min0 = max0
                               then (if min0 > 0 then (0, max0)
                                     else if min0 < 0 then (min0, 0)
                                     else (min0, 1))
                               else (min0, max0));
               includeZero = (channel = ChSize \<or> h_includeZero hints = Some True);
               (min2, max2) = (if includeZero
                               then (if min1 > 0 then (0, max1)
                                     else if max1 < 0 then (min1, 0)
                                     else (min1, max1))
                               else (min1, max1))
           in \<lparr> c_type = nullish (s_type spec) (nullish (h_type hints) Linear),
                c_domain = nullish (s_domain spec) [Number (Fin min2), Number (Fin max2)],
                c_specialValues = h_specialValues hints,
                c_constant = s_constant spec,
                c_range = s_range spec \<rparr>)
      | Nominal \<Rightarrow>
          (let parts = concat (map (\<lambda>x. js_set_of (strings_of x)) (nullish (h_domain hints) [] # data));
               specialValuesSet = set (nullish (h_specialValues hints) []);
               stringValues = filter (\<lambda>x. x \<notin> specialValuesSet) (js_set_of parts)
           in \<lparr> c_type = nullish (s_type spec) (nullish (h_type hints) Band),
                c_domain = nullish (s_domain spec) (map Str stringValues),
                c_specialValues = h_specialValues hints,
                c_constant = None,
                c_range = s_range spec \<rparr>))"

text \<open>The domain of a hint, the empty list when the hint has none.\<close>

definition hint_domain :: "'p ScaleHints \<Rightarrow> DataValue list" where
  "hint_domain h = nullish (h_domain h) []"


subsection \<open>The quantitative domain as the specification words it\<close>

text \<open>The finite numbers of a column; an interval contributes its finite endpoints.\<close>

definition finite_values :: "DataValue list \<Rightarrow> real list" where
  "finite_values vals = List.map_filter finite_number (flat vals)"

text \<open>The finite numbers of the hint domain and of all layers' columns.\<close>

definition observed_values :: "'p ScaleHints \<Rightarrow> DataValue list list \<Rightarrow> real set" where
  "observed_values hints data = set (concat (map finite_values (hint_domain hints # data)))"

text \<open>
  The domain in the words of the specification: an explicit domain of the chart
  specification wins; otherwise the extent of the finite values, \<open>[0, 1]\<close> when
  there is none; a single point \<open>v\<close> becomes \<open>[0, v]\<close>, \<open>[v, 0]\<close> or \<open>[0, 1]\<close>;
  and with includeZero (the size channel, or the hint asks for it) the domain is
  extended to contain zero.
\<close>

definition claimed_domain :: "Scale \<Rightarrow> 'p ScaleHints \<Rightarrow> DataValue list list \<Rightarrow> Channel \<Rightarrow> DataValue list" where
  "claimed_domain spec hints data channel =
     (case s_domain spec of
        Some d \<Rightarrow> d
      | None \<Rightarrow>
          (let S = observed_values hints data;
               (lo, hi) = (if S = {} then (0, 1) else (Min S, Max S));
               (lo1, hi1) = (if lo = hi
                             then (if lo > 0 then (0, lo) else if lo < 0 then (lo, 0) else (0, 1))
                             else (lo, hi));
               (lo2, hi2) = (if channel = ChSize \<or> h_includeZero hints = Some True
                             then (min lo1 0, max hi1 0) else (lo1, hi1))
           in [Number (Fin lo2), Number (Fin hi2)]))"

text \<open>The array \<^verbatim>\<open>parts\<close> of inferScale, as a function of the columns.\<close>

definition extent_parts :: "DataValue list list \<Rightarrow> DataValue list" where
  "extent_parts cols = concat (map (\<lambda>vals. case finiteExtent (flat vals) of
                                              (a, b) \<Rightarrow> [extent_entry a, extent_entry b]) cols)"


section \<open>Result tables and mark shaping (runtime.ts)\<close>

text \<open>
  \<^verbatim>\<open>type DataTable = { length: number; columns: Record<string, DataValue[]> }\<close>.
  A column that the record does not have is \<open>None\<close>.
\<close>

record DataTable =
  t_length :: nat
  t_columns :: "string \<rightharpoonup> DataValue list"

datatype Axis = AxisX | AxisY

fun axis_name :: "Axis \<Rightarrow> string" where
  "axis_name AxisX = ''x''"
| "axis_name AxisY = ''y''"

text \<open>\<^verbatim>\<open>by == "x" ? "y" : "x"\<close>\<close>

fun other_axis :: "Axis \<Rightarrow> Axis" where
  "other_axis AxisX = AxisY"
| "other_axis AxisY = AxisX"

datatype js_error = TypeError

text \<open>
  Reading and writing an array by index as JavaScript does: a read past the end gives
  undefined, a write past the end extends the array (the holes read as undefined).
\<close>

definition js_get :: "DataValue list \<Rightarrow> nat \<Rightarrow> DataValue" where
  "js_get xs i = (if i < length xs then xs ! i else Undefined)"

definition js_put :: "DataValue list \<Rightarrow> nat \<Rightarrow> DataValue \<Rightarrow> DataValue list" where
  "js_put xs i v =
     (if i < length xs then xs[i := v]
      else xs @ replicate (i - length xs) Undefined @ [v])"

text \<open>
  The grouping key \<^verbatim>\<open>JSON.stringify(value)\<close>, up to equality of the resulting
  strings: non-finite numbers and null all print as \<^verbatim>\<open>null\<close>, undefined gives no
  string at all, distinct finite numbers and distinct strings print differently.
  \<open>KNoColumn\<close> is the key \<^verbatim>\<open>""\<close> used when the table has no grouping column.
\<close>

datatype json_key = KNoColumn | KUndefined | KNull | KNumber real | KString string
  | KArray json_key json_key

fun key_of_number :: "jsnum \<Rightarrow> json_key" where
  "key_of_number (Fin r) = KNumber r"
| "key_of_number n = KNull"

fun JSON_stringify :: "DataValue \<Rightarrow> json_key" where
  "JSON_stringify (Str s) = KString s"
| "JSON_stringify (Number n) = key_of_number n"
| "JSON_stringify (Arr2 a b) = KArray (key_of_number a) (key_of_number b)"
| "JSON_stringify Null = KNull"
| "JSON_stringify Undefined = KUndefined"

text \<open>
  \<^verbatim>\<open>data.columns[by] != undefined ? JSON.stringify(data.columns[by][i]) : ""\<close>
\<close>

definition row_key :: "DataTable \<Rightarrow> Axis \<Rightarrow> nat \<Rightarrow> json_key" where
  "row_key data by i =
     (case t_columns data (axis_name by) of
        None \<Rightarrow> KNoColumn
      | Some col \<Rightarrow> JSON_stringify (js_get col i))"

text \<open>
  The \<^verbatim>\<open>Map<string, number[]>\<close> of stack, in insertion order: a new key is
  appended with the row, a known key gets the row pushed onto its entry.
\<close>

fun map_push :: "json_key \<Rightarrow> nat \<Rightarrow> (json_key \<times> nat list) list \<Rightarrow> (json_key \<times> nat list) list" where
  "map_push k i [] = [(k, [i])]"
| "map_push k i ((k', entry) # rest) =
     (if k = k' then (k', entry @ [i]) # rest else (k', entry) # map_push k i rest)"

definition group_rows :: "DataTable \<Rightarrow> Axis \<Rightarrow> (json_key \<times> nat list) list" where
  "group_rows data by = foldl (\<lambda>m i. map_push (row_key data by i) i m) [] [0..<t_length data]"

text \<open>
  An order function of \<^verbatim>\<open>orders\<close>, returning a JavaScript number; the record is
  kept as the list of its entries, in the order \<^verbatim>\<open>for (let key in orders)\<close>
  visits them.
\<close>

type_synonym order_fn = "DataValue \<Rightarrow> DataValue \<Rightarrow> jsnum"

text \<open>
  The comparator given to \<^verbatim>\<open>entry.sort\<close>. \<^verbatim>\<open>r != 0\<close> holds of every number
  but zero, NaN included.
\<close>

fun compare_rows :: "(string \<rightharpoonup> DataValue list) \<Rightarrow> (string \<times> order_fn) list \<Rightarrow> nat \<Rightarrow> nat \<Rightarrow> jsnum" where
  "compare_rows cols [] i1 i2 = Fin (real_of_int (int i1 - int i2))"
| "compare_rows cols ((key, f) # rest) i1 i2 =
     (case cols key of
        None \<Rightarrow> compare_rows cols rest i1 i2
      | Some colump \<Rightarrow>
          (let r = f (js_get colump i1) (js_get colump i2)
           in if r \<noteq> Fin 0 then r else compare_rows cols rest i1 i2))"

text \<open>
  \<^verbatim>\<open>Array.prototype.sort\<close> belongs to the JavaScript engine, not to the program:
  \<open>stack\<close> takes it as a parameter, a function from the comparator and the array to
  the sorted array.
\<close>

type_synonym sort_engine = "(nat \<Rightarrow> nat \<Rightarrow> jsnum) \<Rightarrow> nat list \<Rightarrow> nat list"

text \<open>
  The sum \<^verbatim>\<open>csum + value\<close> of a running sum and a finite number. JavaScript adds
  doubles: the exact sum is rounded to a double, or to an infinity when it is too large.
  That rounding is the parameter \<open>rnd\<close>. An infinite running sum stays as it is when
  a finite number is added.
\<close>

fun js_plus :: "(real \<Rightarrow> jsnum) \<Rightarrow> jsnum \<Rightarrow> real \<Rightarrow> jsnum" where
  "js_plus rnd (Fin a) v = rnd (a + v)"
| "js_plus rnd PosInf v = PosInf"
| "js_plus rnd NegInf v = NegInf"
| "js_plus rnd NaN v = NaN"

text \<open>The loop \<^verbatim>\<open>for (let i of entry)\<close> with its running sum \<^verbatim>\<open>csum\<close>.\<close>

fun stack_entry :: "(real \<Rightarrow> jsnum) \<Rightarrow> nat list \<Rightarrow> jsnum \<Rightarrow> DataValue list \<Rightarrow> DataValue list" where
  "stack_entry rnd [] csum col = col"
| "stack_entry rnd (i # rest) csum col =
     (case finite_number (js_get col i) of
        None \<Rightarrow> stack_entry rnd rest csum (js_put col i Null)
      | Some v \<Rightarrow>
          (let ncsum = js_plus rnd csum v
           in stack_entry rnd rest ncsum (js_put col i (Arr2 csum ncsum))))"

text \<open>
  \<^verbatim>\<open>function stack(data, by, orders)\<close>, with the engine's rounding and sort.
  Without a column for the stacked field, \<^verbatim>\<open>data.columns[field].slice()\<close> throws
  a TypeError.
\<close>

definition stack :: "(real \<Rightarrow> jsnum) \<Rightarrow> sort_engine \<Rightarrow> DataTable \<Rightarrow> Axis \<Rightarrow> (string \<times> order_fn) list \<Rightarrow> js_error + DataTable" where
  "stack rnd js_sort data by orders =
     (let field = axis_name (other_axis by);
          groups = group_rows data by
      in case t_columns data field of
           None \<Rightarrow> Inl TypeError
         | Some column \<Rightarrow>
             (let newFieldColumn =
                    foldl (\<lambda>col entry.
                             stack_entry rnd (js_sort (compare_rows (t_columns data) orders) entry) (Fin 0) col)
                          column (map snd groups)
              in Inr \<lparr> t_length = t_length data,
                       t_columns = (t_columns data)(field \<mapsto> newFieldColumn) \<rparr>))"

subsection \<open>What the language promises of \<^verbatim>\<open>Array.prototype.sort\<close>\<close>

text \<open>
  The comparator's verdict on two elements as the sort reads it: negative, zero or
  positive.
\<close>

definition cmp_lt :: "('a \<Rightarrow> 'a \<Rightarrow> jsnum) \<Rightarrow> 'a \<Rightarrow> 'a \<Rightarrow> bool" where
  "cmp_lt c a b = (case c a b of Fin r \<Rightarrow> r < 0 | NegInf \<Rightarrow> True | _ \<Rightarrow> False)"

definition cmp_gt :: "('a \<Rightarrow> 'a \<Rightarrow> jsnum) \<Rightarrow> 'a \<Rightarrow> 'a \<Rightarrow> bool" where
  "cmp_gt c a b = (case c a b of Fin r \<Rightarrow> 0 < r | PosInf \<Rightarrow> True | _ \<Rightarrow> False)"

definition cmp_eq :: "('a \<Rightarrow> 'a \<Rightarrow> jsnum) \<Rightarrow> 'a \<Rightarrow> 'a \<Rightarrow> bool" where
  "cmp_eq c a b = (c a b = Fin 0)"

text \<open>
  A consistent comparator on a set of values, as the language standard defines it: it
  never returns NaN, equality under it is reflexive, symmetric and transitive, and so
  are less and greater transitive.
\<close>

definition consistent_on :: "('a \<Rightarrow> 'a \<Rightarrow> jsnum) \<Rightarrow> 'a set \<Rightarrow> bool" where
  "consistent_on c S =
     ((\<forall>a\<in>S. \<forall>b\<in>S. c a b \<noteq> NaN) \<and>
      (\<forall>a\<in>S. cmp_eq c a a) \<and>
      (\<forall>a\<in>S. \<forall>b\<in>S. cmp_eq c a b \<longrightarrow> cmp_eq c b a) \<and>
      (\<forall>a\<in>S. \<forall>b\<in>S. \<forall>d\<in>S. cmp_eq c a b \<and> cmp_eq c b d \<longrightarrow> cmp_eq c a d) \<and>
      (\<forall>a\<in>S. \<forall>b\<in>S. \<forall>d\<in>S. cmp_lt c a b \<and> cmp_lt c b d \<longrightarrow> cmp_lt c a d) \<and>
      (\<forall>a\<in>S. \<forall>b\<in>S. \<forall>d\<in>S. cmp_gt c a b \<and> cmp_gt c b d \<longrightarrow> cmp_gt c a d))"

text \<open>The array is in the comparator's order: no element compares less than an earlier one.\<close>

definition ordered_by :: "('a \<Rightarrow> 'a \<Rightarrow> jsnum) \<Rightarrow> 'a list \<Rightarrow> bool" where
  "ordered_by c ys = sorted_wrt (\<lambda>a b. \<not> cmp_lt c b a) ys"

text \<open>
  What the standard promises of the sort: the result holds the elements of the array,
  each as often as the array does, and it is in the comparator's order when the
  comparator is consistent on them. For any other comparator the order is the
  engine's own.
\<close>

definition sort_contract :: "sort_engine \<Rightarrow> bool" where
  "sort_contract js_sort =
     (\<forall>c xs. mset (js_sort c xs) = mset xs \<and>
             (consistent_on c (set xs) \<longrightarrow> ordered_by c (js_sort c xs)))"

text \<open>
  One sort that keeps the promise, a stable insertion sort: an element goes before the
  first one it does not compare greater than.
\<close>

fun insort_cmp :: "('a \<Rightarrow> 'a \<Rightarrow> jsnum) \<Rightarrow> 'a \<Rightarrow> 'a list \<Rightarrow> 'a list" where
  "insort_cmp c x [] = [x]"
| "insort_cmp c x (y # ys) = (if cmp_gt c x y then y # insort_cmp c x ys else x # y # ys)"

definition sort_cmp :: "('a \<Rightarrow> 'a \<Rightarrow> jsnum) \<Rightarrow> 'a list \<Rightarrow> 'a list" where
  "sort_cmp c xs = foldr (insort_cmp c) xs []"

text \<open>
  A rounding that leaves every real as it is. It agrees with the rounding of doubles on
  every sum that is itself a double, as the sums of small whole numbers are.
\<close>

definition exact_rounding :: "real \<Rightarrow> jsnum" where
  "exact_rounding x = Fin x"

subsection \<open>An order function of the source\<close>

text \<open>\<^verbatim>\<open>Array.prototype.indexOf\<close>: the first index of the value, or -1.\<close>

fun indexOf :: "'a list \<Rightarrow> 'a \<Rightarrow> int" where
  "indexOf [] x = - 1"
| "indexOf (y # ys) x =
     (if x = y then 0 else (let i = indexOf ys x in if i < 0 then - 1 else i + 1))"

text \<open>
  The \<^verbatim>\<open>order\<close> of a nominal aggregate (common/aggregate.ts), which the layer
  builder hands to \<open>stack\<close> under the attribute's name: two strings compare by their
  indices among the levels, a string that is no level by the number of levels plus its
  index among the special values; anything else compares equal.
\<close>

definition nominal_order :: "string list \<Rightarrow> string list \<Rightarrow> order_fn" where
  "nominal_order levelValues specialValues a b =
     (case (a, b) of
        (Str sa, Str sb) \<Rightarrow>
          (let xa = indexOf levelValues sa;
               xa' = (if xa < 0 then int (length levelValues) + indexOf specialValues sa else xa);
               xb = indexOf levelValues sb;
               xb' = (if xb < 0 then int (length levelValues) + indexOf specialValues sb else xb)
           in Fin (real_of_int (xa' - xb')))
      | _ \<Rightarrow> Fin 0)"

subsection \<open>Rows in one group\<close>

text \<open>Two rows are in the same entry of the map.\<close>

definition same_group :: "DataTable \<Rightarrow> Axis \<Rightarrow> nat \<Rightarrow> nat \<Rightarrow> bool" where
  "same_group data by i j = list_ex (\<lambda>(key, entry). i \<in> set entry \<and> j \<in> set entry) (group_rows data by)"

text \<open>
  Two values print the same JSON text: equal strings, equal finite numbers, pairs whose
  components print the same; null and every number that is not finite print as
  \<^verbatim>\<open>null\<close>; undefined prints nothing and is the same as itself only.
\<close>

fun not_finite :: "jsnum \<Rightarrow> bool" where
  "not_finite (Fin r) = False"
| "not_finite n = True"

fun same_json_number :: "jsnum \<Rightarrow> jsnum \<Rightarrow> bool" where
  "same_json_number (Fin a) (Fin b) = (a = b)"
| "same_json_number (Fin a) b = False"
| "same_json_number a (Fin b) = False"
| "same_json_number a b = True"

fun same_json_text :: "DataValue \<Rightarrow> DataValue \<Rightarrow> bool" where
  "same_json_text (Str s) (Str t) = (s = t)"
| "same_json_text (Number a) (Number b) = same_json_number a b"
| "same_json_text (Number a) Null = not_finite a"
| "same_json_text Null (Number b) = not_finite b"
| "same_json_text (Arr2 a b) (Arr2 c d) = (same_json_number a c \<and> same_json_number b d)"
| "same_json_text Null Null = True"
| "same_json_text Undefined Undefined = True"
| "same_json_text a b = False"

text \<open>A value that holds no number other than finite ones.\<close>

fun finite_or_no_number :: "DataValue \<Rightarrow> bool" where
  "finite_or_no_number (Number (Fin r)) = True"
| "finite_or_no_number (Number n) = False"
| "finite_or_no_number (Arr2 (Fin a) (Fin b)) = True"
| "finite_or_no_number (Arr2 a b) = False"
| "finite_or_no_number v = True"

subsection \<open>Stacking as the specification words it\<close>

text \<open>
  The running sum over rows, from a given start: rows whose value is not a finite
  number are left out, the others are added in order, as JavaScript adds.
\<close>

definition running_from :: "(real \<Rightarrow> jsnum) \<Rightarrow> jsnum \<Rightarrow> DataValue list \<Rightarrow> nat list \<Rightarrow> jsnum" where
  "running_from rnd start col rows =
     foldl (js_plus rnd) start (List.map_filter (\<lambda>i. finite_number (js_get col i)) rows)"

definition running_sum :: "(real \<Rightarrow> jsnum) \<Rightarrow> DataValue list \<Rightarrow> nat list \<Rightarrow> jsnum" where
  "running_sum rnd col rows = running_from rnd (Fin 0) col rows"

text \<open>
  The value of the row at position \<open>p\<close> of a sorted group: null when the row's value
  is not a finite number, otherwise the interval from the running sum of the rows before
  it to that sum plus the row's value.
\<close>

definition stacked_value :: "(real \<Rightarrow> jsnum) \<Rightarrow> DataValue list \<Rightarrow> nat list \<Rightarrow> nat \<Rightarrow> DataValue" where
  "stacked_value rnd col rows p =
     (case finite_number (js_get col (rows ! p)) of
        None \<Rightarrow> Null
      | Some v \<Rightarrow> Arr2 (running_sum rnd col (take p rows))
                       (js_plus rnd (running_sum rnd col (take p rows)) v))"

text \<open>
  The results of the order functions for two rows, in the order of \<open>orders\<close>, for the
  keys that name a column of the table.
\<close>

definition order_results :: "(string \<rightharpoonup> DataValue list) \<Rightarrow> (string \<times> order_fn) list \<Rightarrow> nat \<Rightarrow> nat \<Rightarrow> jsnum list" where
  "order_results cols orders i1 i2 =
     List.map_filter (\<lambda>(key, f). map_option (\<lambda>c. f (js_get c i1) (js_get c i2)) (cols key)) orders"

text \<open>The table of the specification's example: one group with the values 3, NaN, 2.\<close>

definition example_table :: DataTable where
  "example_table =
     \<lparr> t_length = 3,
       t_columns = [''x'' \<mapsto> [Str ''a'', Str ''a'', Str ''a''],
                    ''y'' \<mapsto> [Number (Fin 3), Number NaN, Number (Fin 2)]] \<rparr>"

text \<open>A table with a grouping column only.\<close>

definition table_without_y :: DataTable where
  "table_without_y = \<lparr> t_length = 1, t_columns = [''x'' \<mapsto> [Str ''a'']] \<rparr>"

text \<open>
  Two rows whose grouping values are the two infinities, which are different numbers.
\<close>

definition infinities_table :: DataTable where
  "infinities_table =
     \<lparr> t_length = 2,
       t_columns = [''x'' \<mapsto> [Number PosInf, Number NegInf],
                    ''y'' \<mapsto> [Number (Fin 1), Number (Fin 2)]] \<rparr>"

text \<open>
  Four rows in two groups, a and b, with a colour column that the nominal order with
  the levels u, v sorts by.
\<close>

definition colored_table :: DataTable where
  "colored_table =
     \<lparr> t_length = 4,
       t_columns = [''x'' \<mapsto> [Str ''a'', Str ''b'', Str ''a'', Str ''b''],
                    ''y'' \<mapsto> [Number (Fin 1), Number (Fin 2), Number (Fin 3), Number (Fin 4)],
                    ''color'' \<mapsto> [Str ''v'', Str ''u'', Str ''u'', Str ''v'']] \<rparr>"

definition color_orders :: "(string \<times> order_fn) list" where
  "color_orders = [(''color'', nominal_order [''u'', ''v''] [])]"

section \<open>SQL expressions and dynamically typed values\<close>

text \<open>
  A JavaScript value as far as the predicate builders look at it: they test
  \<^verbatim>\<open>typeof v == "string"\<close>, \<^verbatim>\<open>v instanceof Array\<close>, the length of
  an array and \<^verbatim>\<open>typeof v[0] == "number"\<close>.
\<close>

datatype jsval = JUndefined | JNull | JBool bool | JNum real | JStr string | JArr "jsval list"

text \<open>\<^verbatim>\<open>type SQLField = string | { sql: string }\<close>\<close>

datatype SQLField = FieldName string | FieldSql string

text \<open>
  The expression nodes that the code builds with the SQL builder library, one
  constructor per builder function. \<open>SqlField\<close> stands for
  \<^verbatim>\<open>ctx.fieldExpr(field)\<close>: the column reference of a named field, or the SQL
  text of a field with its variables replaced. The builder functions
  \<^verbatim>\<open>SQL.and\<close> and \<^verbatim>\<open>SQL.or\<close> return a node for any number of
  arguments, also for none.
\<close>

datatype sql_expr =
    SqlColumn string
  | SqlField SQLField
  | SqlLiteral jsval
  | SqlRaw string
  | SqlCast sql_expr string
  | SqlCount
  | SqlAgg string sql_expr "real option"
  | SqlWhere sql_expr sql_expr
  | SqlUnnest sql_expr
  | SqlQuantileDisc sql_expr sql_expr
  | SqlQuantiles "real list"
  | SqlIsFinite sql_expr
  | SqlIsNull sql_expr
  | SqlIsNotNull sql_expr
  | SqlNot sql_expr
  | SqlAnd "sql_expr list"
  | SqlOr "sql_expr list"
  | SqlIsIn sql_expr "sql_expr list"
  | SqlIsNotDistinct sql_expr sql_expr
  | SqlIsBetween sql_expr real real
  | SqlGt sql_expr sql_expr
  | SqlCond sql_expr sql_expr sql_expr
  | SqlFloor sql_expr
  | SqlMul sql_expr real
  | SqlSub sql_expr real

section \<open>Field statistics and aggregate inference (common/aggregate.ts)\<close>

text \<open>
  \<^verbatim>\<open>FieldStats.quantitative\<close>, for a column with at least one finite value (the
  statistics are numbers then).
\<close>

record QuantStats =
  q_count :: nat
  q_min :: real
  q_max :: real
  q_mean :: real
  q_median :: real
  q_minPositive :: real
  q_countNonFinite :: nat

text \<open>\<^verbatim>\<open>FieldStats.nominal\<close>; a level is its value and its count.\<close>

record NominalStats =
  n_levels :: "(string \<times> nat) list"
  n_numOtherLevels :: nat
  n_otherCount :: nat
  n_nullCount :: nat

record FieldStats =
  f_field :: sql_expr
  f_quantitative :: "QuantStats option"
  f_nominal :: "NominalStats option"

text \<open>
  The result of \<^verbatim>\<open>inferBinning\<close> (common/binning.ts, not among the sources):
  the scale with its type, constant and the three functions the code calls on it, and
  the start and size of the bins. It is a parameter of the model.
\<close>

record Binning =
  b_type :: ScaleType
  b_constant :: "real option"
  b_expr :: "sql_expr \<Rightarrow> real \<Rightarrow> sql_expr"
  b_forward :: "real \<Rightarrow> real \<Rightarrow> real"
  b_reverse :: "real \<Rightarrow> real \<Rightarrow> real"
  b_binStart :: real
  b_binSize :: real

text \<open>
  \<^verbatim>\<open>interface AggregateInfo\<close>: the select expression, the scale and the predicate
  builder. The mapper \<^verbatim>\<open>field\<close> and the comparator \<^verbatim>\<open>order\<close> are
  functions that no property below looks into; they are left out.
\<close>

record AggregateInfo =
  a_select :: sql_expr
  a_scale :: ScaleConfig
  a_predicate :: "jsval \<Rightarrow> sql_expr option"

text \<open>
  The environment of \<^verbatim>\<open>inferAggregate\<close>: the binning module, and the number
  formatting of the host's locale (\<^verbatim>\<open>Number.prototype.toLocaleString\<close>).
\<close>

record AggregateEnv =
  env_inferBinning :: "QuantStats \<Rightarrow> ScaleType option \<Rightarrow> nat \<Rightarrow> Binning"
  env_toLocaleString :: "nat \<Rightarrow> string"

text \<open>\<^verbatim>\<open>valueToPredicate\<close> of the quantitative branch.\<close>

fun valueToPredicate :: "sql_expr \<Rightarrow> jsval \<Rightarrow> sql_expr" where
  "valueToPredicate inputExpr (JStr v) =
     (if v = ''n/a'' then SqlOr [SqlNot (SqlIsFinite inputExpr), SqlIsNull inputExpr]
      else SqlLiteral (JBool False))"
| "valueToPredicate inputExpr (JArr [JNum v1, JNum v2]) = SqlIsBetween inputExpr (min v1 v2) (max v1 v2)"
| "valueToPredicate inputExpr (JArr [JNum v1, v2]) = SqlLiteral (JBool False)"
| "valueToPredicate inputExpr (JArr vs) = SqlOr (map (valueToPredicate inputExpr) vs)"
| "valueToPredicate inputExpr v = SqlLiteral (JBool False)"

text \<open>
  The quantitative branch of \<^verbatim>\<open>inferAggregate\<close>, given the binning. The bin
  index is a floor of a real; the arithmetic is exact.
\<close>

definition valueToBinIndex :: "Binning \<Rightarrow> real \<Rightarrow> int" where
  "valueToBinIndex binning x =
     \<lfloor>(b_forward binning x (nullish (b_constant binning) 0) - b_binStart binning) / b_binSize binning\<rfloor>"

definition binIndexToValue :: "Binning \<Rightarrow> int \<Rightarrow> real" where
  "binIndexToValue binning idx =
     b_reverse binning (real_of_int idx * b_binSize binning + b_binStart binning)
       (nullish (b_constant binning) 0)"

definition hasNA :: "QuantStats \<Rightarrow> Binning \<Rightarrow> bool" where
  "hasNA q binning = (q_countNonFinite q > 0 \<or> (b_type binning = Log \<and> q_min q < 0))"

definition inferAggregate_quantitative :: "sql_expr \<Rightarrow> QuantStats \<Rightarrow> Binning \<Rightarrow> AggregateInfo" where
  "inferAggregate_quantitative field q binning =
     (let inputExpr = SqlCast field ''DOUBLE'';
          expr = b_expr binning inputExpr (nullish (b_constant binning) 0);
          bin = SqlFloor (SqlMul (SqlSub expr (b_binStart binning)) (1 / b_binSize binning));
          sel = (if b_type binning = Log
                 then SqlCond (SqlAnd [SqlIsFinite inputExpr, SqlGt inputExpr (SqlLiteral (JNum 0))])
                        bin (SqlLiteral JNull)
                 else SqlCond (SqlIsFinite inputExpr) bin (SqlLiteral JNull));
          bin0 = valueToBinIndex binning (if b_type binning = Log then q_minPositive q else q_min q);
          bin1 = valueToBinIndex binning (q_max q);
          dom = [Number (Fin (binIndexToValue binning bin0)),
                 Number (Fin (binIndexToValue binning (bin1 + 1)))]
      in \<lparr> a_select = sel,
           a_scale = \<lparr> c_type = b_type binning,
                       c_domain = dom,
                       c_specialValues = Some (if hasNA q binning then [''n/a''] else []),
                       c_constant = b_constant binning,
                       c_range = None \<rparr>,
           a_predicate = (\<lambda>v. Some (valueToPredicate inputExpr v)) \<rparr>)"

text \<open>
  The clipping of the nominal branch: the levels shown, and the locals
  \<^verbatim>\<open>numOtherLevels\<close> and \<^verbatim>\<open>otherCount\<close> after the block
  \<^verbatim>\<open>if (levels.length > binCount) { ... }\<close>. The bin count is a natural number.
\<close>

record Clipped =
  cl_levels :: "(string \<times> nat) list"
  cl_numOtherLevels :: nat
  cl_otherCount :: nat

definition clip_levels :: "NominalStats \<Rightarrow> nat \<Rightarrow> Clipped" where
  "clip_levels n binCount =
     (if length (n_levels n) > binCount
      then \<lparr> cl_levels = take binCount (n_levels n),
             cl_numOtherLevels = n_numOtherLevels n + (length (n_levels n) - binCount),
             cl_otherCount = foldl (\<lambda>a b. a + snd b) 0 (drop binCount (n_levels n)) \<rparr>
      else \<lparr> cl_levels = n_levels n,
             cl_numOtherLevels = n_numOtherLevels n,
             cl_otherCount = n_otherCount n \<rparr>)"

definition otherRepr :: "AggregateEnv \<Rightarrow> nat \<Rightarrow> string" where
  "otherRepr env numOtherLevels = ''('' @ env_toLocaleString env numOtherLevels @ '' others)''"

definition nullRepr :: string where
  "nullRepr = ''(null)''"

text \<open>
  \<^verbatim>\<open>predicate\<close> of the nominal branch, for one level. The elements of a
  selection are strings (the code casts them with \<^verbatim>\<open>d as string\<close>).
\<close>

definition level_predicate :: "sql_expr \<Rightarrow> string list \<Rightarrow> string \<Rightarrow> jsval \<Rightarrow> sql_expr" where
  "level_predicate inputExpr levelValues other v =
     (if v = JStr nullRepr then SqlIsNull inputExpr
      else if v = JStr other
      then SqlAnd [SqlNot (SqlIsIn inputExpr (map (\<lambda>l. SqlLiteral (JStr l)) levelValues)),
                   SqlIsNotNull inputExpr]
      else SqlIsNotDistinct inputExpr (SqlLiteral v))"

definition nominal_predicate :: "sql_expr \<Rightarrow> string list \<Rightarrow> string \<Rightarrow> jsval \<Rightarrow> sql_expr option" where
  "nominal_predicate inputExpr levelValues other v =
     (case v of
        JArr ds \<Rightarrow> Some (SqlOr (map (level_predicate inputExpr levelValues other) ds))
      | JStr s \<Rightarrow> Some (level_predicate inputExpr levelValues other v)
      | _ \<Rightarrow> None)"

definition nominal_specialValues :: "AggregateEnv \<Rightarrow> Clipped \<Rightarrow> nat \<Rightarrow> string list" where
  "nominal_specialValues env cl nullCount =
     (if cl_otherCount cl > 0 then [otherRepr env (cl_numOtherLevels cl)] else []) @
     (if nullCount > 0 then [nullRepr] else [])"

definition inferAggregate_nominal :: "AggregateEnv \<Rightarrow> sql_expr \<Rightarrow> NominalStats \<Rightarrow> nat \<Rightarrow> AggregateInfo" where
  "inferAggregate_nominal env field n binCount =
     (let cl = clip_levels n binCount;
          other = otherRepr env (cl_numOtherLevels cl);
          inputExpr = SqlCast field ''TEXT'';
          levelValues = map fst (cl_levels cl);
          literals = map (\<lambda>l. SqlLiteral (JStr l)) levelValues;
          sel = SqlCond (SqlIsIn inputExpr literals) inputExpr
                  (SqlCond (SqlIsNull inputExpr) (SqlLiteral (JStr nullRepr)) (SqlLiteral (JStr other)))
      in \<lparr> a_select = sel,
           a_scale = \<lparr> c_type = Band,
                       c_domain = map Str levelValues,
                       c_specialValues = Some (nominal_specialValues env cl (n_nullCount n)),
                       c_constant = None,
                       c_range = None \<rparr>,
           a_predicate = nominal_predicate inputExpr levelValues other \<rparr>)"

text \<open>
  \<^verbatim>\<open>function inferAggregate({ stats, scaleType, binCount })\<close>: quantitative
  statistics win over nominal ones; without either the result is undefined.
\<close>

definition inferAggregate :: "AggregateEnv \<Rightarrow> FieldStats \<Rightarrow> ScaleType option \<Rightarrow> nat option \<Rightarrow> AggregateInfo option" where
  "inferAggregate env stats scaleType binCount =
     (case f_quantitative stats of
        Some q \<Rightarrow>
          Some (inferAggregate_quantitative (f_field stats) q
                  (env_inferBinning env q scaleType (nullish binCount 20)))
      | None \<Rightarrow>
          (case f_nominal stats of
             Some n \<Rightarrow> Some (inferAggregate_nominal env (f_field stats) n (nullish binCount 15))
           | None \<Rightarrow> None))"

subsection \<open>Two inputs of aggregate inference\<close>

text \<open>
  The statistics of a string column with 1005 distinct values, each in one row: the
  1000 levels the collector keeps, and the 5 levels and 5 rows beyond them.
\<close>

definition thousand_levels :: "(string \<times> nat) list" where
  "thousand_levels = map (\<lambda>i. (replicate (Suc i) CHR ''a'', 1)) [0..<1000]"

definition many_levels_stats :: NominalStats where
  "many_levels_stats =
     \<lparr> n_levels = thousand_levels, n_numOtherLevels = 5, n_otherCount = 5, n_nullCount = 0 \<rparr>"

text \<open>The statistics of the numeric column 0, 10, 100.\<close>

definition zero_min_stats :: QuantStats where
  "zero_min_stats =
     \<lparr> q_count = 3, q_min = 0, q_max = 100, q_mean = 110 / 3, q_median = 10,
       q_minPositive = 10, q_countNonFinite = 0 \<rparr>"


text \<open>
  An environment for examples: a locale that prints a number as its decimal digits, and
  a binning on the identity scale.
\<close>

function decimal :: "nat \<Rightarrow> string" where
  "decimal n = (if n < 10 then [''0123456789'' ! n]
                else decimal (n div 10) @ [''0123456789'' ! (n mod 10)])"
  by pat_completeness auto
termination
  by (relation "measure id") auto

declare decimal.simps [simp del]

definition identity_binning :: Binning where
  "identity_binning =
     \<lparr> b_type = Linear, b_constant = None, b_expr = (\<lambda>e c. e), b_forward = (\<lambda>x c. x),
       b_reverse = (\<lambda>x c. x), b_binStart = 0, b_binSize = 1 \<rparr>"

definition example_env :: AggregateEnv where
  "example_env = \<lparr> env_inferBinning = (\<lambda>q s k. identity_binning), env_toLocaleString = decimal \<rparr>"

text \<open>
  The statistics of the string column a, a, a, b, b, c, null (scenario 2 of the
  specification).
\<close>

definition scenario_stats :: NominalStats where
  "scenario_stats =
     \<lparr> n_levels = [(''a'', 3), (''b'', 2), (''c'', 1)], n_numOtherLevels = 0, n_otherCount = 0,
       n_nullCount = 1 \<rparr>"


section \<open>The encoding resolver (runtime.ts)\<close>

text \<open>
  The value of \<^verbatim>\<open>encoding.aggregate\<close>: a string, an object with a property
  \<^verbatim>\<open>sql\<close>, null, or any other value (a number, an object without
  \<^verbatim>\<open>sql\<close>).
\<close>

datatype AggregateSpec = AggName string | AggSql string | AggNull | AggOther

record Bin =
  bin_desiredCount :: "nat option"

text \<open>
  \<^verbatim>\<open>type Encoding\<close> as the object the resolver inspects: a property that the
  object does not have is \<open>None\<close>.
\<close>

record Encoding =
  e_aggregate :: "AggregateSpec option"
  e_field :: "SQLField option"
  e_bin :: "Bin option"
  e_quantile :: "real option"
  e_normalize :: "Axis option"
  e_value :: "DataValue option"

text \<open>
  The own properties of the object literal \<^verbatim>\<open>numericalAggregates\<close>, each with
  the SQL aggregate it builds.
\<close>

definition numericalAggregates :: "(string \<times> string) list" where
  "numericalAggregates =
     [(''min'', ''min''), (''max'', ''max''), (''mean'', ''avg''), (''average'', ''avg''),
      (''median'', ''median''), (''stdev'', ''stddev''), (''stdevp'', ''stddevPop''),
      (''variance'', ''variance''), (''variancep'', ''varPop''), (''sum'', ''sum''),
      (''product'', ''product''), (''quantile'', ''quantile'')]"

text \<open>
  The properties every object literal inherits from \<^verbatim>\<open>Object.prototype\<close>. The
  lookup \<^verbatim>\<open>numericalAggregates[name]\<close> finds them too, and each of them is
  truthy.
\<close>

definition Object_prototype_properties :: "string list" where
  "Object_prototype_properties =
     [''constructor'', ''__defineGetter__'', ''__defineSetter__'', ''hasOwnProperty'',
      ''__lookupGetter__'', ''__lookupSetter__'', ''isPrototypeOf'', ''propertyIsEnumerable'',
      ''toString'', ''valueOf'', ''__proto__'', ''toLocaleString'']"

datatype Lookup = OwnProperty string | InheritedProperty | NoProperty

definition lookup_numericalAggregates :: "string \<Rightarrow> Lookup" where
  "lookup_numericalAggregates name =
     (case map_of numericalAggregates name of
        Some f \<Rightarrow> OwnProperty f
      | None \<Rightarrow> if name \<in> set Object_prototype_properties then InheritedProperty else NoProperty)"

text \<open>The messages of \<^verbatim>\<open>console.warn\<close>.\<close>

datatype Warning = RequiresField AggregateSpec | UnknownAggregate AggregateSpec | UnsupportedDataType

text \<open>
  The mapper of a resolved encoding: the aggregate's \<^verbatim>\<open>field\<close> function, or
  the constant function of a value encoding.
\<close>

datatype Mapper = MapAggregateField | MapConstant DataValue

type_synonym Hints = "(jsval \<Rightarrow> sql_expr option) ScaleHints"

text \<open>
  The object \<^verbatim>\<open>buildEncoding\<close> returns; \<open>r_order\<close> says whether it carries
  the aggregate's comparator.
\<close>

record EncodingResult =
  r_select :: "sql_expr option"
  r_scale :: "Hints option"
  r_normalize :: "Axis option"
  r_grouping :: "sql_expr list option"
  r_mapper :: "Mapper option"
  r_order :: bool

text \<open>
  What the resolver reads of its context: the statistics of a field over the layer's
  source (\<^verbatim>\<open>ctx.stats[fieldStatsKey(from, field)]\<close>), the scales of the chart
  specification, and the environment of aggregate inference.
\<close>

record BuildContext =
  ctx_stats :: "SQLField \<Rightarrow> FieldStats option"
  ctx_scale :: "Channel \<Rightarrow> Scale option"
  ctx_env :: AggregateEnv

text \<open>\<^verbatim>\<open>function fieldTitle(field)\<close>\<close>

fun fieldTitle :: "SQLField \<Rightarrow> string" where
  "fieldTitle (FieldName f) = f"
| "fieldTitle (FieldSql s) = s"

text \<open>\<^verbatim>\<open>String.prototype.toUpperCase\<close> on the letters a to z.\<close>

definition upper_char :: "char \<Rightarrow> char" where
  "upper_char c = (if 97 \<le> (of_char c :: nat) \<and> (of_char c :: nat) \<le> 122
                   then char_of ((of_char c :: nat) - 32) else c)"

definition toUpperCase :: "string \<Rightarrow> string" where
  "toUpperCase s = map upper_char s"

text \<open>\<^verbatim>\<open>function quantilesExpr()\<close>: the quantiles 0/200, 1/200, ..., 200/200.\<close>

definition quantilesExpr :: sql_expr where
  "quantilesExpr = SqlQuantiles (map (\<lambda>i. real i / 200) [0..<201])"

text \<open>\<^verbatim>\<open>function quantitativePredicate(field, v)\<close>\<close>

fun quantitativePredicate :: "sql_expr \<Rightarrow> jsval \<Rightarrow> sql_expr option" where
  "quantitativePredicate field (JArr [JNum v1, JNum v2]) = Some (SqlIsBetween field (min v1 v2) (max v1 v2))"
| "quantitativePredicate field v = None"

definition plain_hints :: "Kind \<Rightarrow> Hints" where
  "plain_hints k =
     \<lparr> h_kind = k, h_type = None, h_domain = None, h_specialValues = None,
       h_includeZero = None, h_title = None, h_predicate = None \<rparr>"

definition no_result :: EncodingResult where
  "no_result =
     \<lparr> r_select = None, r_scale = None, r_normalize = None, r_grouping = None,
       r_mapper = None, r_order = False \<rparr>"

text \<open>
  The branch \<^verbatim>\<open>if ("aggregate" in encoding)\<close>. A call of a property
  inherited from \<^verbatim>\<open>Object.prototype\<close> in place of an aggregate builder, followed
  by \<^verbatim>\<open>.where(...)\<close> on its result, throws a TypeError.
\<close>

definition buildAggregate :: "Encoding \<Rightarrow> AggregateSpec \<Rightarrow> js_error + (Warning list \<times> EncodingResult option)" where
  "buildAggregate encoding agg =
     (if agg = AggName ''count'' then
        Inr ([], Some (no_result \<lparr> r_select := Some SqlCount,
                 r_scale := Some ((plain_hints Quantitative) \<lparr> h_title := Some ''Count'', h_includeZero := Some True \<rparr>),
                 r_normalize := e_normalize encoding \<rparr>))
      else if agg = AggName ''ecdf-value'' then
        (case e_field encoding of
           Some field \<Rightarrow>
             (let expr = SqlCast (SqlField field) ''DOUBLE''
              in Inr ([], Some (no_result \<lparr> r_select := Some (SqlUnnest (SqlQuantileDisc expr quantilesExpr)),
                       r_scale := Some ((plain_hints Quantitative)
                                    \<lparr> h_predicate := Some (quantitativePredicate expr),
                                      h_title := Some (fieldTitle field) \<rparr>),
                       r_normalize := e_normalize encoding \<rparr>)))
         | None \<Rightarrow> Inr ([RequiresField agg], None))
      else if agg = AggName ''ecdf-rank'' then
        Inr ([], Some (no_result \<lparr> r_select := Some (SqlUnnest quantilesExpr),
                 r_scale := Some ((plain_hints Quantitative)
                              \<lparr> h_domain := Some [Number (Fin 0), Number (Fin 1)],
                                h_title := Some ''Quantile'' \<rparr>),
                 r_normalize := e_normalize encoding \<rparr>))
      else
        (case agg of
           AggName name \<Rightarrow>
             (case lookup_numericalAggregates name of
                OwnProperty f \<Rightarrow>
                  (case e_field encoding of
                     Some field \<Rightarrow>
                       (let expr = SqlField field
                        in Inr ([], Some (no_result \<lparr> r_select := Some (SqlWhere
                                     (SqlAgg f expr (if name = ''quantile''
                                                     then Some (nullish (e_quantile encoding) (1 / 2))
                                                     else None))
                                     (SqlIsFinite expr)),
                                 r_scale := Some ((plain_hints Quantitative)
                                    \<lparr> h_predicate := Some (quantitativePredicate expr),
                                      h_title := Some (toUpperCase name @ ''('' @ fieldTitle field @ '')'') \<rparr>),
                                 r_normalize := e_normalize encoding \<rparr>)))
                   | None \<Rightarrow> Inr ([RequiresField agg], None))
              | InheritedProperty \<Rightarrow>
                  (case e_field encoding of
                     Some field \<Rightarrow> Inl TypeError
                   | None \<Rightarrow> Inr ([RequiresField agg], None))
              | NoProperty \<Rightarrow> Inr ([UnknownAggregate agg], None))
         | AggSql s \<Rightarrow>
             Inr ([], Some (no_result \<lparr> r_select := Some (SqlRaw s),
                      r_scale := Some (plain_hints Quantitative),
                      r_normalize := e_normalize encoding \<rparr>))
         | AggNull \<Rightarrow> Inl TypeError
         | AggOther \<Rightarrow> Inr ([UnknownAggregate agg], None)))"

text \<open>The branch \<^verbatim>\<open>else if ("field" in encoding)\<close>.\<close>

definition buildField :: "BuildContext \<Rightarrow> Channel option \<Rightarrow> Encoding \<Rightarrow> SQLField \<Rightarrow> bool \<Rightarrow> js_error + (Warning list \<times> EncodingResult option)" where
  "buildField ctx channel encoding field fieldsInGroupBy =
     (let bin = (if e_bin encoding = None \<and> fieldsInGroupBy \<and> channel \<noteq> None
                 then Some \<lparr> bin_desiredCount = None \<rparr> else e_bin encoding)
      in case ctx_stats ctx field of
           None \<Rightarrow> Inr ([], None)
         | Some stats \<Rightarrow>
             (case bin of
                Some b \<Rightarrow>
                  (case inferAggregate (ctx_env ctx) stats
                          (case channel of
                             None \<Rightarrow> None
                           | Some ch \<Rightarrow> (case ctx_scale ctx ch of None \<Rightarrow> None | Some sc \<Rightarrow> s_type sc))
                          (Some (nullish (bin_desiredCount b)
                                   (if channel = Some ChX \<or> channel = Some ChY then 20 else 5))) of
                     None \<Rightarrow> Inr ([UnsupportedDataType], None)
                   | Some aggregate \<Rightarrow>
                       Inr ([], Some \<lparr> r_select = Some (a_select aggregate),
                                r_scale = (if channel \<noteq> None
                                           then Some \<lparr> h_kind = (if c_type (a_scale aggregate) = Band
                                                                  then Nominal else Quantitative),
                                                       h_type = Some (c_type (a_scale aggregate)),
                                                       h_domain = Some (c_domain (a_scale aggregate)),
                                                       h_specialValues = c_specialValues (a_scale aggregate),
                                                       h_includeZero = None,
                                                       h_title = Some (fieldTitle field),
                                                       h_predicate = Some (a_predicate aggregate) \<rparr>
                                           else None),
                                r_normalize = None,
                                r_grouping = Some [a_select aggregate],
                                r_mapper = Some MapAggregateField,
                                r_order = True \<rparr>))
              | None \<Rightarrow>
                  (let sel = SqlField field
                   in Inr ([], Some \<lparr> r_select = Some sel,
                            r_scale = Some (plain_hints (if f_quantitative stats \<noteq> None
                                                         then Quantitative else Nominal)),
                            r_normalize = None,
                            r_grouping = Some (if fieldsInGroupBy then [sel] else []),
                            r_mapper = None,
                            r_order = False \<rparr>))))"

text \<open>
  \<^verbatim>\<open>function buildEncoding(ctx, from, channel, encoding, fieldsInGroupBy)\<close>.
  The result is the list of warnings logged and the object returned (\<open>None\<close> for
  undefined), or the error thrown.
\<close>

definition buildEncoding :: "BuildContext \<Rightarrow> Channel option \<Rightarrow> Encoding \<Rightarrow> bool \<Rightarrow> js_error + (Warning list \<times> EncodingResult option)" where
  "buildEncoding ctx channel encoding fieldsInGroupBy =
     (case e_aggregate encoding of
        Some agg \<Rightarrow> buildAggregate encoding agg
      | None \<Rightarrow>
          (case e_field encoding of
             Some field \<Rightarrow> buildField ctx channel encoding field fieldsInGroupBy
           | None \<Rightarrow>
               (case e_value encoding of
                  Some v \<Rightarrow>
                    Inr ([], Some (no_result \<lparr> r_mapper := Some (MapConstant v),
                             r_scale := (case v of
                                           Str s \<Rightarrow> Some ((plain_hints Nominal) \<lparr> h_domain := Some [v] \<rparr>)
                                         | Number n \<Rightarrow> Some ((plain_hints Quantitative) \<lparr> h_domain := Some [v] \<rparr>)
                                         | _ \<Rightarrow> None) \<rparr>))
                | None \<Rightarrow> Inr ([], None))))"

text \<open>An encoding that has only the given aggregate, and one that also has a field.\<close>

definition aggregate_only :: "AggregateSpec \<Rightarrow> Encoding" where
  "aggregate_only agg =
     \<lparr> e_aggregate = Some agg, e_field = None, e_bin = None, e_quantile = None,
       e_normalize = None, e_value = None \<rparr>"

definition aggregate_of_field :: "AggregateSpec \<Rightarrow> SQLField \<Rightarrow> Encoding" where
  "aggregate_of_field agg field = (aggregate_only agg) \<lparr> e_field := Some field \<rparr>"

text \<open>
  The aggregate names of the claim that need a field, and the names the resolver
  knows at all.
\<close>

definition field_aggregates :: "string list" where
  "field_aggregates =
     [''min'', ''max'', ''mean'', ''median'', ''stdev'', ''variance'', ''sum'', ''product'',
      ''quantile'', ''ecdf-value'']"

definition known_aggregates :: "string list" where
  "known_aggregates = [''count'', ''ecdf-value'', ''ecdf-rank''] @ map fst numericalAggregates"

section \<open>The count plot (basic/CountPlot.svelte)\<close>

text \<open>
  A clause written to the shared filter: its source, the query clients it names, the
  value and the predicate; \<open>None\<close> is null. Sources and clients are numbered.
\<close>

record ('v, 'p) Clause =
  source :: nat
  clients :: "nat list"
  clause_value :: "'v option"
  predicate :: "'p option"

text \<open>
  \<^verbatim>\<open>const isSame = (a, b) => JSON.stringify(a) == JSON.stringify(b)\<close>: on
  strings and on intervals of finite numbers the two strings are equal exactly when the
  values are.
\<close>

definition isSame :: "jsval \<Rightarrow> jsval \<Rightarrow> bool" where
  "isSame a b = (a = b)"

text \<open>
  \<^verbatim>\<open>function toggleSelection(value, shift)\<close>: the result is the selection it
  passes to \<^verbatim>\<open>onStateChange\<close>, \<open>None\<close> for undefined. The host stores it as
  the chart state's selection.
\<close>

definition toggleSelection :: "jsval list option \<Rightarrow> jsval \<Rightarrow> bool \<Rightarrow> jsval list option" where
  "toggleSelection selection v shift =
     (case selection of
        None \<Rightarrow> Some [v]
      | Some sel \<Rightarrow>
          if length sel = 0 then Some [v]
          else (let exists = (find (\<lambda>x. isSame x v) sel \<noteq> None)
                in if shift
                   then (if exists then Some (filter (\<lambda>x. \<not> isSame x v) sel) else Some (sel @ [v]))
                   else (if exists then None else Some [v])))"

text \<open>
  The clause of the effect "Sync selection with brush":
  \<^verbatim>\<open>selection != undefined ? { value: selection, predicate:
  capturedAggregate.predicate(selection) ?? null } : { value: null, predicate: null }\<close>.
\<close>

definition selection_clause :: "nat \<Rightarrow> nat \<Rightarrow> AggregateInfo \<Rightarrow> jsval list option \<Rightarrow> (jsval, sql_expr) Clause" where
  "selection_clause src clientSelection capturedAggregate selection =
     (case selection of
        Some sel \<Rightarrow>
          \<lparr> source = src, clients = [clientSelection], clause_value = Some (JArr sel),
            predicate = a_predicate capturedAggregate (JArr sel) \<rparr>
      | None \<Rightarrow>
          \<lparr> source = src, clients = [clientSelection], clause_value = None, predicate = None \<rparr>)"

section \<open>The chart runtime (runtime.ts, class ChartRuntime)\<close>

text \<open>
  A chart specification as the runtime sees it: an object with an identity (compared by
  \<^verbatim>\<open>!==\<close>) and a JSON content (compared by \<^verbatim>\<open>deepEquals\<close>).
\<close>

record 'b Spec =
  spec_id :: nat
  spec_body :: 'b

text \<open>
  Modelled from the spec: \<^verbatim>\<open>deepEquals\<close> of the utilities package is not among
  the sources; it is the structural equality of two JSON values, and an undefined
  current specification equals no specification.
\<close>

definition deepEquals_spec :: "'b Spec \<Rightarrow> 'b Spec option \<Rightarrow> bool" where
  "deepEquals_spec spec current = (case current of None \<Rightarrow> False | Some s \<Rightarrow> spec_body s = spec_body spec)"

text \<open>\<^verbatim>\<open>this.spec !== spec\<close>\<close>

definition not_identical :: "'b Spec option \<Rightarrow> 'b Spec \<Rightarrow> bool" where
  "not_identical current spec = (case current of None \<Rightarrow> True | Some s \<Rightarrow> spec_id s \<noteq> spec_id spec)"

text \<open>
  \<^verbatim>\<open>interface SelectionOutputs\<close>: an object with an identity, the key of its
  value in the chart state, and its clause function, which gives undefined for an
  undefined value and otherwise the value with the predicate built from it.
\<close>

record ('v, 'p) SelectionOutputs =
  sel_id :: nat
  sel_key :: string
  sel_predicate :: "'v \<Rightarrow> 'p"

text \<open>
  What \<^verbatim>\<open>buildChart\<close> makes of a specification and its statistics, as far as
  the runtime uses it: the number of query clients (one per layer that issues a query)
  and the selections with their keys and predicate builders.
\<close>

record ('b, 'v, 'p) Compiler =
  build_clients :: "'b \<Rightarrow> nat"
  build_selections :: "'b \<Rightarrow> (string \<times> ('v \<Rightarrow> 'p)) list"

text \<open>
  A subscription made by one completed \<^verbatim>\<open>setSpec\<close> call: the call, the clients
  its closure captured, and its variable \<^verbatim>\<open>currentClause\<close> (the selection's
  identity and the value).
\<close>

record 'v Subscription =
  sub_id :: nat
  sub_clients :: "nat list"
  sub_currentClause :: "(nat \<times> 'v option) option"

datatype ('v, 'p) Event =
    SourceReset
  | FilterUpdate "('v, 'p) Clause"
  | Unsubscribe nat
  | ClientCreate nat
  | ClientDestroy nat
  | PublishOutputs nat
  | PublishSelections nat
  | ClearOutputs

text \<open>
  The runtime with the stores it owns, the shared filter, the suspended
  \<^verbatim>\<open>setSpec\<close> calls (each with the specification it was given), and the trace of
  what it did. \<open>rt_cleanupFn\<close> holds the call whose closure it is and the clients that
  closure destroys. \<open>rt_outputs\<close> names the call whose outputs the store holds.
\<close>

record ('b, 'v, 'p) Runtime =
  rt_source :: nat
  rt_spec :: "'b Spec option"
  rt_cleanupFn :: "(nat \<times> nat list) option"
  rt_outputs :: "nat option"
  rt_selections :: "('v, 'p) SelectionOutputs list option"
  rt_state :: "(string \<rightharpoonup> 'v) option"
  rt_subs :: "'v Subscription list"
  rt_pending :: "(nat \<times> 'b Spec) list"
  rt_filter :: "('v, 'p) Clause list"
  rt_trace :: "('v, 'p) Event list"
  rt_next :: nat

text \<open>\<^verbatim>\<open>new ChartRuntime(context, onReset)\<close>, given the clauses other charts hold.\<close>

definition new_runtime :: "nat \<Rightarrow> ('v, 'p) Clause list \<Rightarrow> ('b, 'v, 'p) Runtime" where
  "new_runtime src others =
     \<lparr> rt_source = src, rt_spec = None, rt_cleanupFn = None, rt_outputs = None,
       rt_selections = None, rt_state = None, rt_subs = [], rt_pending = [],
       rt_filter = others, rt_trace = [], rt_next = 0 \<rparr>"

text \<open>
  Modelled from the spec: the shared filter (a selection of the query library, not
  among the sources). A write replaces the clause of its source and never duplicates
  it; a clause whose predicate is null leaves the source without a clause.
\<close>

definition filter_update :: "('v, 'p) Clause \<Rightarrow> ('v, 'p) Clause list \<Rightarrow> ('v, 'p) Clause list" where
  "filter_update c cs =
     filter (\<lambda>d. source d \<noteq> source c) cs @ (if predicate c = None then [] else [c])"

text \<open>The clearing clause \<^verbatim>\<open>{ source, clients, value: null, predicate: null }\<close>.\<close>

definition clearing :: "nat \<Rightarrow> nat list \<Rightarrow> ('v, 'p) Clause" where
  "clearing src cls = \<lparr> source = src, clients = cls, clause_value = None, predicate = None \<rparr>"

text \<open>\<^verbatim>\<open>state?.[selection.key]\<close>\<close>

definition selection_value :: "(string \<rightharpoonup> 'v) option \<Rightarrow> ('v, 'p) SelectionOutputs \<Rightarrow> 'v option" where
  "selection_value st s = (case st of None \<Rightarrow> None | Some m \<Rightarrow> m (sel_key s))"

text \<open>The clause the subscriber writes for a selection and its value.\<close>

definition written_clause :: "nat \<Rightarrow> nat list \<Rightarrow> ('v, 'p) SelectionOutputs \<Rightarrow> 'v option \<Rightarrow> ('v, 'p) Clause" where
  "written_clause src cls s v =
     (case v of
        None \<Rightarrow> clearing src cls
      | Some x \<Rightarrow> \<lparr> source = src, clients = cls, clause_value = Some x,
                    predicate = Some (sel_predicate s x) \<rparr>)"

text \<open>
  The subscriber of \<^verbatim>\<open>derived([this.selections, this.state])\<close>: the loop over
  the selections, returning the new \<^verbatim>\<open>currentClause\<close> and the clauses it writes,
  in order.
\<close>

fun sync_clauses :: "nat \<Rightarrow> nat list \<Rightarrow> (string \<rightharpoonup> 'v) option \<Rightarrow> ('v, 'p) SelectionOutputs list \<Rightarrow>
    (nat \<times> 'v option) option \<Rightarrow> (nat \<times> 'v option) option \<times> ('v, 'p) Clause list" where
  "sync_clauses src cls st [] cur = (cur, [])"
| "sync_clauses src cls st (s # rest) cur =
     (let v = selection_value st s
      in if cur = Some (sel_id s, v) then sync_clauses src cls st rest cur
         else (case sync_clauses src cls st rest (Some (sel_id s, v)) of
                 (cur', ws) \<Rightarrow> (cur', written_clause src cls s v # ws)))"

text \<open>Writing clauses to the filter, each write recorded in the trace.\<close>

definition write_clauses :: "('v, 'p) Clause list \<Rightarrow> ('b, 'v, 'p) Runtime \<Rightarrow> ('b, 'v, 'p) Runtime" where
  "write_clauses ws rt =
     rt \<lparr> rt_filter := foldl (\<lambda>f c. filter_update c f) (rt_filter rt) ws,
          rt_trace := rt_trace rt @ map FilterUpdate ws \<rparr>"

text \<open>
  A store of the runtime's changed: every subscription runs its subscriber, in the
  order of subscription.
\<close>

fun notify_subs :: "nat \<Rightarrow> (string \<rightharpoonup> 'v) option \<Rightarrow> ('v, 'p) SelectionOutputs list \<Rightarrow>
    'v Subscription list \<Rightarrow> 'v Subscription list \<times> ('v, 'p) Clause list" where
  "notify_subs src st sels [] = ([], [])"
| "notify_subs src st sels (sub # rest) =
     (case sync_clauses src (sub_clients sub) st sels (sub_currentClause sub) of
        (cur, ws) \<Rightarrow>
          (case notify_subs src st sels rest of
             (subs, ws') \<Rightarrow> (sub \<lparr> sub_currentClause := cur \<rparr> # subs, ws @ ws')))"

definition notify :: "('b, 'v, 'p) Runtime \<Rightarrow> ('b, 'v, 'p) Runtime" where
  "notify rt =
     (case notify_subs (rt_source rt) (rt_state rt) (nullish (rt_selections rt) []) (rt_subs rt) of
        (subs, ws) \<Rightarrow> write_clauses ws (rt \<lparr> rt_subs := subs \<rparr>))"

text \<open>
  \<^verbatim>\<open>this.state.set(value)\<close>, as the host and the runtime itself call it. A
  writable store tells its subscribers unless the old and the new value are both
  undefined (an object always counts as changed).
\<close>

definition state_set :: "(string \<rightharpoonup> 'v) option \<Rightarrow> ('b, 'v, 'p) Runtime \<Rightarrow> ('b, 'v, 'p) Runtime" where
  "state_set v rt =
     (if rt_state rt = None \<and> v = None then rt else notify (rt \<lparr> rt_state := v \<rparr>))"

text \<open>\<^verbatim>\<open>this.selections.set(value)\<close>\<close>

definition selections_set :: "('v, 'p) SelectionOutputs list option \<Rightarrow> ('b, 'v, 'p) Runtime \<Rightarrow> ('b, 'v, 'p) Runtime" where
  "selections_set v rt =
     (if rt_selections rt = None \<and> v = None then rt else notify (rt \<lparr> rt_selections := v \<rparr>))"

definition log_events :: "('v, 'p) Event list \<Rightarrow> ('b, 'v, 'p) Runtime \<Rightarrow> ('b, 'v, 'p) Runtime" where
  "log_events evs rt = rt \<lparr> rt_trace := rt_trace rt @ evs \<rparr>"

text \<open>
  The closure \<^verbatim>\<open>this.cleanupFn\<close> of the call \<open>call\<close> with its clients: reset the
  source (the host's callback; it changes nothing of the runtime by itself), empty the
  state, unsubscribe, destroy the clients.
\<close>

definition run_cleanupFn :: "nat \<Rightarrow> nat list \<Rightarrow> ('b, 'v, 'p) Runtime \<Rightarrow> ('b, 'v, 'p) Runtime" where
  "run_cleanupFn call cls rt =
     (let rt1 = log_events [SourceReset] rt;
          rt2 = state_set None rt1;
          rt3 = log_events [Unsubscribe call]
                  (rt2 \<lparr> rt_subs := filter (\<lambda>s. sub_id s \<noteq> call) (rt_subs rt2) \<rparr>)
      in log_events (map ClientDestroy cls) rt3)"

text \<open>\<^verbatim>\<open>private cleanup()\<close>\<close>

definition cleanup :: "('b, 'v, 'p) Runtime \<Rightarrow> ('b, 'v, 'p) Runtime" where
  "cleanup rt =
     (case rt_cleanupFn rt of
        None \<Rightarrow> rt \<lparr> rt_spec := None \<rparr>
      | Some (call, cls) \<Rightarrow> (run_cleanupFn call cls rt) \<lparr> rt_cleanupFn := None, rt_spec := None \<rparr>)"

text \<open>\<^verbatim>\<open>destroy()\<close>\<close>

definition destroy :: "('b, 'v, 'p) Runtime \<Rightarrow> ('b, 'v, 'p) Runtime" where
  "destroy rt =
     (let rt1 = cleanup rt;
          rt2 = log_events [ClearOutputs] (rt1 \<lparr> rt_outputs := None \<rparr>);
          rt3 = state_set None rt2
      in selections_set None rt3)"

text \<open>
  \<^verbatim>\<open>setSpec(spec)\<close> up to its \<^verbatim>\<open>await\<close>: nothing for a specification
  deep-equal to the current one; otherwise clean up, make it the current one and
  suspend, as the call numbered \<open>rt_next\<close>.
\<close>

definition setSpec_begin :: "'b Spec \<Rightarrow> ('b, 'v, 'p) Runtime \<Rightarrow> ('b, 'v, 'p) Runtime" where
  "setSpec_begin spec rt =
     (if deepEquals_spec spec (rt_spec rt) then rt
      else (let rt1 = cleanup rt
            in rt1 \<lparr> rt_spec := Some spec,
                     rt_pending := rt_pending rt1 @ [(rt_next rt1, spec)],
                     rt_next := rt_next rt1 + 1 \<rparr>))"

text \<open>
  The rest of \<^verbatim>\<open>setSpec\<close> once the statistics are there and the call is still
  for the current specification: \<^verbatim>\<open>buildChart\<close> creates the clients, publishes
  outputs and selections; then the subscription is made, its subscriber runs at once,
  and the cleanup closure is stored.
\<close>

definition number_selections :: "nat \<Rightarrow> (string \<times> ('v \<Rightarrow> 'p)) list \<Rightarrow> ('v, 'p) SelectionOutputs list" where
  "number_selections n ks =
     map (\<lambda>(i, (key, pred)). \<lparr> sel_id = n + i, sel_key = key, sel_predicate = pred \<rparr>)
         (zip [0..<length ks] ks)"

definition build_and_subscribe :: "('b, 'v, 'p) Compiler \<Rightarrow> nat \<Rightarrow> 'b Spec \<Rightarrow> ('b, 'v, 'p) Runtime \<Rightarrow> ('b, 'v, 'p) Runtime" where
  "build_and_subscribe compiler call spec rt =
     (let n = build_clients compiler (spec_body spec);
          cls = [rt_next rt..<rt_next rt + n];
          sels = number_selections (rt_next rt + n) (build_selections compiler (spec_body spec));
          rt1 = log_events (map ClientCreate cls @ [PublishOutputs call])
                  (rt \<lparr> rt_outputs := Some call, rt_next := rt_next rt + n + length sels \<rparr>);
          rt2 = selections_set (Some sels) (log_events [PublishSelections call] rt1)
      in case sync_clauses (rt_source rt2) cls (rt_state rt2) sels None of
           (cur, ws) \<Rightarrow>
             (write_clauses ws
                (rt2 \<lparr> rt_subs := rt_subs rt2 @
                          [\<lparr> sub_id = call, sub_clients = cls, sub_currentClause = cur \<rparr>] \<rparr>))
             \<lparr> rt_cleanupFn := Some (call, cls) \<rparr>)"

text \<open>
  The statistics of the suspended call \<open>call\<close> arrive: a call whose specification is
  not the current object returns without doing anything.
\<close>

definition setSpec_resume :: "('b, 'v, 'p) Compiler \<Rightarrow> nat \<Rightarrow> ('b, 'v, 'p) Runtime \<Rightarrow> ('b, 'v, 'p) Runtime" where
  "setSpec_resume compiler call rt =
     (case map_of (rt_pending rt) call of
        None \<Rightarrow> rt
      | Some spec \<Rightarrow>
          (let rt0 = rt \<lparr> rt_pending := filter (\<lambda>p. fst p \<noteq> call) (rt_pending rt) \<rparr>
           in if not_identical (rt_spec rt0) spec then rt0
              else build_and_subscribe compiler call spec rt0))"

subsection \<open>States of the runtime\<close>

text \<open>The filter holds a clause of the given source.\<close>

definition holds_clause :: "nat \<Rightarrow> ('v, 'p) Clause list \<Rightarrow> bool" where
  "holds_clause src f = (find (\<lambda>c. source c = src) f \<noteq> None)"

text \<open>
  The runtime between specifications: no cleanup closure, no subscription, and no
  clause of its source in the filter.
\<close>

definition idle :: "('b, 'v, 'p) Runtime \<Rightarrow> bool" where
  "idle rt =
     (rt_cleanupFn rt = None \<and> rt_subs rt = [] \<and> \<not> holds_clause (rt_source rt) (rt_filter rt))"

text \<open>
  The runtime with a built chart: the cleanup closure of the call \<open>call\<close> with the
  clients \<open>cls\<close>, that call's subscription and no other, selections with distinct
  identities, and, whenever the filter holds a clause of the runtime's source, a state
  and a \<^verbatim>\<open>currentClause\<close> that make the subscriber write again once the state is
  emptied: the state is defined, there is a selection, and a single selection is not
  the current one with an undefined value.
\<close>

definition in_sync :: "('b, 'v, 'p) Runtime \<Rightarrow> nat \<Rightarrow> nat list \<Rightarrow> bool" where
  "in_sync rt call cls =
     (rt_cleanupFn rt = Some (call, cls) \<and>
      map sub_id (rt_subs rt) = [call] \<and>
      map sub_clients (rt_subs rt) = [cls] \<and>
      distinct (map sel_id (nullish (rt_selections rt) [])) \<and>
      (if holds_clause (rt_source rt) (rt_filter rt)
       then rt_state rt \<noteq> None \<and> nullish (rt_selections rt) [] \<noteq> [] \<and>
            (if length (nullish (rt_selections rt) []) = 1
             then map sub_currentClause (rt_subs rt) \<noteq>
                    [Some (sel_id (hd (nullish (rt_selections rt) [])), None)]
             else True)
       else True))"

subsection \<open>Example runs\<close>

text \<open>
  A compiler for specifications that are just a number of query layers and a list of
  selection keys; values and predicates are numbers.
\<close>

definition example_compiler :: "(nat \<times> string list, nat, nat) Compiler" where
  "example_compiler = \<lparr> build_clients = fst, build_selections = (\<lambda>b. map (\<lambda>k. (k, id)) (snd b)) \<rparr>"

text \<open>Two bar layers and no selection.\<close>

definition bars_spec :: "(nat \<times> string list) Spec" where
  "bars_spec = \<lparr> spec_id = 1, spec_body = (2, []) \<rparr>"

text \<open>One layer with a selection named brush, and a different specification.\<close>

definition specA :: "(nat \<times> string list) Spec" where
  "specA = \<lparr> spec_id = 1, spec_body = (1, [''brush'']) \<rparr>"

definition specB :: "(nat \<times> string list) Spec" where
  "specB = \<lparr> spec_id = 2, spec_body = (2, []) \<rparr>"

text \<open>The chart of \<open>bars_spec\<close>, built.\<close>

definition built_without_selection :: "(nat \<times> string list, nat, nat) Runtime" where
  "built_without_selection =
     setSpec_resume example_compiler 0 (setSpec_begin bars_spec (new_runtime 7 []))"

text \<open>The chart of \<open>specA\<close>, built, with the brush set to 5.\<close>

definition brushed :: "(nat \<times> string list, nat, nat) Runtime" where
  "brushed =
     state_set (Some [''brush'' \<mapsto> 5])
       (setSpec_resume example_compiler 0 (setSpec_begin specA (new_runtime 7 [])))"

text \<open>
  \<^verbatim>\<open>setSpec(specA)\<close>, then \<^verbatim>\<open>setSpec(specB)\<close>, then
  \<^verbatim>\<open>setSpec(specA)\<close> with the same object again, all three suspended (the calls
  0, 1 and 2).
\<close>

definition three_calls :: "(nat \<times> string list, nat, nat) Runtime" where
  "three_calls = setSpec_begin specA (setSpec_begin specB (setSpec_begin specA (new_runtime 7 [])))"

subsection \<open>Orderly runs\<close>

text \<open>
  The states a runtime reaches when its host changes the state, sets specifications
  and destroys it, other charts write their own clauses to the filter, and a suspended
  call whose statistics arrive is either stale or finds no chart built. (A call that is
  not stale and finds a chart built builds a second chart on top of the first; the
  example \<open>three_calls\<close> leads there.)
\<close>

inductive orderly :: "('b, 'v, 'p) Compiler \<Rightarrow> ('b, 'v, 'p) Runtime \<Rightarrow> bool"
  for compiler :: "('b, 'v, 'p) Compiler" where
  created: "\<not> holds_clause src others \<Longrightarrow> orderly compiler (new_runtime src others)"
| state_changed: "orderly compiler rt \<Longrightarrow> orderly compiler (state_set v rt)"
| spec_set: "orderly compiler rt \<Longrightarrow> orderly compiler (setSpec_begin spec rt)"
| statistics_arrived:
    "orderly compiler rt \<Longrightarrow>
     rt_cleanupFn rt = None \<or>
       (case map_of (rt_pending rt) call of None \<Rightarrow> True | Some spec \<Rightarrow> not_identical (rt_spec rt) spec) \<Longrightarrow>
     orderly compiler (setSpec_resume compiler call rt)"
| destroyed: "orderly compiler rt \<Longrightarrow> orderly compiler (destroy rt)"
| other_chart_wrote:
    "orderly compiler rt \<Longrightarrow> source c \<noteq> rt_source rt \<Longrightarrow>
     orderly compiler (rt \<lparr> rt_filter := filter_update c (rt_filter rt) \<rparr>)"
section \<open>Merging scale hints\<close>

text \<open>
  Claim C8. Merging scale hints is commutative and associative as far as membership in
  the merged domain goes: a value is in the domain of \<open>merge a b\<close> exactly when it is
  in the domain of \<open>merge b a\<close>, and in the domain of \<open>merge (merge a b) c\<close> exactly
  when it is in the domain of \<open>merge a (merge b c)\<close>.
\<close>

theorem mergeScaleHints_domain_membership:
  "(v \<in> set (hint_domain (mergeScaleHints a b)) \<longleftrightarrow> v \<in> set (hint_domain (mergeScaleHints b a))) \<and>
   (v \<in> set (hint_domain (mergeScaleHints (mergeScaleHints a b) c)) \<longleftrightarrow>
    v \<in> set (hint_domain (mergeScaleHints a (mergeScaleHints b c))))"
  by (auto simp: hint_domain_def mergeScaleHints_def nullish_def Let_def)

section \<open>Scale inference\<close>

lemma foldl_extent_Some:
  "foldl (d3_extent_step f) (Some (mn, mx)) xs =
     Some (Min (insert mn (set (List.map_filter f xs))), Max (insert mx (set (List.map_filter f xs))))"
proof (induction xs arbitrary: mn mx)
  case Nil
  then show ?case by (simp add: List.map_filter_simps)
next
  case (Cons x xs)
  show ?case
  proof (cases "f x")
    case None
    then show ?thesis using Cons by (simp add: d3_extent_step_def List.map_filter_simps)
  next
    case (Some v)
    have a: "Min (insert (if v < mn then v else mn) (set (List.map_filter f xs))) = Min (insert mn (insert v (set (List.map_filter f xs))))"
      by (cases "set (List.map_filter f xs) = {}") (auto simp: min_def)
    have b: "Max (insert (if mx < v then v else mx) (set (List.map_filter f xs))) = Max (insert mx (insert v (set (List.map_filter f xs))))"
      by (cases "set (List.map_filter f xs) = {}") (auto simp: max_def)
    show ?thesis using Some Cons a b by (simp add: d3_extent_step_def List.map_filter_simps)
  qed
qed

lemma d3_extent_eq:
  "d3_extent f xs =
     (if List.map_filter f xs = [] then (None, None)
      else (Some (Min (set (List.map_filter f xs))), Some (Max (set (List.map_filter f xs)))))"
proof (induction xs)
  case Nil
  then show ?case by (simp add: d3_extent_def List.map_filter_simps)
next
  case (Cons x xs)
  show ?case
  proof (cases "f x")
    case None
    then show ?thesis using Cons by (simp add: d3_extent_def d3_extent_step_def List.map_filter_simps)
  next
    case (Some v)
    then show ?thesis
      by (simp add: d3_extent_def d3_extent_step_def List.map_filter_simps foldl_extent_Some)
  qed
qed

lemma finite_number_extent_entry [simp]: "finite_number (extent_entry a) = a"
  by (cases a) auto

lemma map_filter_append: "List.map_filter f (xs @ ys) = List.map_filter f xs @ List.map_filter f ys"
  by (simp add: List.map_filter_def)

lemma parts_values:
  "set (List.map_filter finite_number (extent_parts (c # cs))) =
     (if finite_values c = [] then {} else {Min (set (finite_values c)), Max (set (finite_values c))})
     \<union> set (List.map_filter finite_number (extent_parts cs))"
  by (simp add: extent_parts_def finiteExtent_def d3_extent_eq finite_values_def
        map_filter_append List.map_filter_simps)

lemma parts_summary:
  "(set (List.map_filter finite_number (extent_parts cols)) = {} \<longleftrightarrow>
      set (concat (map finite_values cols)) = {}) \<and>
   (set (concat (map finite_values cols)) \<noteq> {} \<longrightarrow>
      Min (set (List.map_filter finite_number (extent_parts cols))) = Min (set (concat (map finite_values cols))) \<and>
      Max (set (List.map_filter finite_number (extent_parts cols))) = Max (set (concat (map finite_values cols))))"
proof (induction cols)
  case Nil
  then show ?case by (simp add: extent_parts_def List.map_filter_simps)
next
  case (Cons c cs)
  let ?S = "set (finite_values c)"
  let ?P = "set (List.map_filter finite_number (extent_parts cs))"
  let ?A = "set (concat (map finite_values cs))"
  show ?case
  proof (cases "finite_values c = []")
    case True
    then show ?thesis using Cons by (simp add: parts_values)
  next
    case False
    then have S: "?S \<noteq> {}" "finite ?S" by auto
    have mm: "Min ?S \<le> Max ?S" using S by simp
    have m1: "Min {Min ?S, Max ?S} = Min ?S" using mm by (simp add: min_def)
    have m2: "Max {Min ?S, Max ?S} = Max ?S" using mm by (simp add: max_def)
    show ?thesis
    proof (cases "?A = {}")
      case True
      then have "?P = {}" using Cons by simp
      then show ?thesis using False True m1 m2 by (simp add: parts_values)
    next
      case A: False
      then have P: "?P \<noteq> {}" "finite ?P" using Cons by auto
      have eqs: "Min ?P = Min ?A" "Max ?P = Max ?A" using Cons A by auto
      have "Min ({Min ?S, Max ?S} \<union> ?P) = min (Min {Min ?S, Max ?S}) (Min ?P)"
        using P by (intro Min_Un) auto
      moreover have "Min (?S \<union> ?A) = min (Min ?S) (Min ?A)"
        using S A by (intro Min_Un) auto
      moreover have "Max ({Min ?S, Max ?S} \<union> ?P) = max (Max {Min ?S, Max ?S}) (Max ?P)"
        using P by (intro Max_Un) auto
      moreover have "Max (?S \<union> ?A) = max (Max ?S) (Max ?A)"
        using S A by (intro Max_Un) auto
      ultimately show ?thesis using False A P eqs m1 m2 by (simp add: parts_values del: Min_insert Max_insert)
    qed
  qed
qed

lemma inferScale_min_max:
  "finiteExtent (extent_parts cols) =
     (if set (concat (map finite_values cols)) = {} then (None, None)
      else (Some (Min (set (concat (map finite_values cols)))), Some (Max (set (concat (map finite_values cols))))))"
  using parts_summary [of cols]
  by (auto simp: finiteExtent_def d3_extent_eq)

text \<open>
  Claim C7. On a quantitative channel the domain that inferScale returns is the one the
  specification describes: the explicit domain of the chart specification when there
  is one; otherwise the extent of the finite values of the hint domain and of all
  layers' channel data, \<open>[0, 1]\<close> when no finite value exists, a single point
  \<open>v\<close> extended to \<open>[0, v]\<close>, \<open>[v, 0]\<close> or \<open>[0, 1]\<close>, and, with includeZero,
  extended to contain zero.
\<close>

theorem inferScale_quantitative_domain:
  assumes "h_kind hints = Quantitative"
  shows "c_domain (inferScale spec hints data channel) = claimed_domain spec hints data channel"
proof -
  have fe: "finiteExtent (extent_parts (nullish (h_domain hints) [] # data)) =
     (if observed_values hints data = {} then (None, None)
      else (Some (Min (observed_values hints data)), Some (Max (observed_values hints data))))"
    unfolding observed_values_def hint_domain_def by (rule inferScale_min_max)
  show ?thesis
  proof (cases "s_domain spec")
    case (Some d)
    then show ?thesis using assms
      by (simp add: inferScale_def claimed_domain_def nullish_def Let_def split: prod.splits)
  next
    case None
    have fin: "finite (observed_values hints data)"
      by (simp add: observed_values_def)
    have mm: "observed_values hints data \<noteq> {} \<Longrightarrow>
                Min (observed_values hints data) \<le> Max (observed_values hints data)"
      using fin by simp
    show ?thesis
      using assms None fe mm
      unfolding inferScale_def claimed_domain_def extent_parts_def [symmetric]
      by (auto simp: nullish_def Let_def min_def max_def split: prod.splits option.splits if_splits)
  qed
qed


theorem inferScale_quantitative_domain_witness:
  "h_kind \<lparr> h_kind = Quantitative, h_type = None, h_domain = Some [Number (Fin 4)],
            h_specialValues = None, h_includeZero = None, h_title = None,
            h_predicate = (None :: unit option) \<rparr> = Quantitative \<and>
   c_domain (inferScale
      \<lparr> s_type = None, s_domain = None, s_specialValues = None, s_constant = None, s_range = None \<rparr>
      \<lparr> h_kind = Quantitative, h_type = None, h_domain = Some [Number (Fin 4)],
        h_specialValues = None, h_includeZero = None, h_title = None,
        h_predicate = (None :: unit option) \<rparr>
      [[Number (Fin 3), Arr2 (Fin 1) (Fin 2), Str ''a'', Number NaN], [Number (Fin 7), Null]]
      ChY) = [Number (Fin 1), Number (Fin 7)]"
  using inferScale_quantitative_domain
    [of "\<lparr> h_kind = Quantitative, h_type = None, h_domain = Some [Number (Fin 4)],
            h_specialValues = None, h_includeZero = None, h_title = None,
            h_predicate = (None :: unit option) \<rparr>"
        "\<lparr> s_type = None, s_domain = None, s_specialValues = None, s_constant = None, s_range = None \<rparr>"
        "[[Number (Fin 3), Arr2 (Fin 1) (Fin 2), Str ''a'', Number NaN], [Number (Fin 7), Null]]"
        ChY]
  by (simp add: claimed_domain_def observed_values_def finite_values_def hint_domain_def
        nullish_def flat_def List.map_filter_simps)

section \<open>Stacking\<close>

subsection \<open>One group\<close>

lemma js_get_js_put: "js_get (js_put xs i v) j = (if j = i then v else js_get xs j)"
  by (auto simp: js_get_def js_put_def nth_append)

lemma stack_entry_other:
  "j \<notin> set rows \<Longrightarrow> js_get (stack_entry rnd rows csum col) j = js_get col j"
  by (induction rows arbitrary: csum col) (auto simp: js_get_js_put Let_def split: option.splits)

lemma running_from_cong:
  "(\<And>r. r \<in> set rows \<Longrightarrow> js_get col' r = js_get col r) \<Longrightarrow>
   running_from rnd start col' rows = running_from rnd start col rows"
proof -
  assume a: "\<And>r. r \<in> set rows \<Longrightarrow> js_get col' r = js_get col r"
  have "List.map_filter (\<lambda>i. finite_number (js_get col' i)) rows =
        List.map_filter (\<lambda>i. finite_number (js_get col i)) rows"
    using a unfolding List.map_filter_def by (induction rows) auto
  then show ?thesis by (simp add: running_from_def)
qed

lemma stacked_value_cong:
  assumes "\<And>r. r \<in> set rows \<Longrightarrow> js_get col' r = js_get col r" and "p < length rows"
  shows "stacked_value rnd col' rows p = stacked_value rnd col rows p"
proof -
  have a: "js_get col' (rows ! p) = js_get col (rows ! p)"
    using assms by simp
  have b: "running_from rnd (Fin 0) col' (take p rows) = running_from rnd (Fin 0) col (take p rows)"
    by (rule running_from_cong) (use assms in \<open>auto dest: in_set_takeD\<close>)
  show ?thesis by (simp add: stacked_value_def running_sum_def a b split: option.splits)
qed

lemma running_from_Cons:
  "running_from rnd start col (i # rows) =
     running_from rnd (case finite_number (js_get col i) of None \<Rightarrow> start | Some v \<Rightarrow> js_plus rnd start v)
       col rows"
  by (simp add: running_from_def List.map_filter_simps split: option.splits)

lemma running_from_Nil [simp]: "running_from rnd start col [] = start"
  by (simp add: running_from_def List.map_filter_simps)

lemma stack_entry_at:
  "distinct rows \<Longrightarrow> p < length rows \<Longrightarrow>
   js_get (stack_entry rnd rows csum col) (rows ! p) =
     (case finite_number (js_get col (rows ! p)) of
        None \<Rightarrow> Null
      | Some v \<Rightarrow> Arr2 (running_from rnd csum col (take p rows))
                       (js_plus rnd (running_from rnd csum col (take p rows)) v))"
proof (induction rows arbitrary: csum col p)
  case Nil
  then show ?case by simp
next
  case (Cons i rest)
  show ?case
  proof (cases p)
    case 0
    then show ?thesis using Cons.prems
      by (simp add: stack_entry_other js_get_js_put Let_def split: option.splits)
  next
    case (Suc q)
    then have q: "q < length rest" and ne: "rest ! q \<noteq> i" and d: "distinct rest"
      using Cons.prems by auto
    have notin: "i \<notin> set rest" using Cons.prems by simp
    show ?thesis
    proof (cases "finite_number (js_get col i)")
      case None
      let ?col' = "js_put col i Null"
      have rs: "running_from rnd csum ?col' (take q rest) = running_from rnd csum col (take q rest)"
        by (rule running_from_cong) (use notin in \<open>auto simp: js_get_js_put dest: in_set_takeD\<close>)
      show ?thesis
        using Cons.IH [OF d q, of csum ?col'] None Suc ne rs
        by (simp add: js_get_js_put running_from_Cons split: option.splits)
    next
      case (Some v)
      let ?n = "js_plus rnd csum v"
      let ?col' = "js_put col i (Arr2 csum ?n)"
      have rs: "running_from rnd ?n ?col' (take q rest) = running_from rnd ?n col (take q rest)"
        by (rule running_from_cong) (use notin in \<open>auto simp: js_get_js_put dest: in_set_takeD\<close>)
      show ?thesis
        using Cons.IH [OF d q, of ?n ?col'] Some Suc ne rs
        by (simp add: js_get_js_put running_from_Cons Let_def split: option.splits)
    qed
  qed
qed

lemma stack_entry_stacked_value:
  "distinct rows \<Longrightarrow> p < length rows \<Longrightarrow>
   js_get (stack_entry rnd rows (Fin 0) col) (rows ! p) = stacked_value rnd col rows p"
  by (simp add: stack_entry_at stacked_value_def running_sum_def split: option.splits)

subsection \<open>Consistent comparators\<close>


lemma consistent_no_NaN:
  assumes "consistent_on c S" "a \<in> S" "b \<in> S"
  shows "c a b \<noteq> NaN"
proof -
  have "\<forall>a\<in>S. \<forall>b\<in>S. c a b \<noteq> NaN" using assms(1) unfolding consistent_on_def by (elim conjE)
  then show ?thesis using assms(2,3) by blast
qed

lemma consistent_eq_refl:
  assumes "consistent_on c S" "a \<in> S"
  shows "cmp_eq c a a"
proof -
  have "\<forall>a\<in>S. cmp_eq c a a" using assms(1) unfolding consistent_on_def by (elim conjE)
  then show ?thesis using assms(2) by blast
qed

lemma consistent_eq_sym:
  assumes "consistent_on c S" "a \<in> S" "b \<in> S" "cmp_eq c a b"
  shows "cmp_eq c b a"
proof -
  have "\<forall>a\<in>S. \<forall>b\<in>S. cmp_eq c a b \<longrightarrow> cmp_eq c b a"
    using assms(1) unfolding consistent_on_def by (elim conjE)
  then show ?thesis using assms(2,3,4) by blast
qed

lemma consistent_eq_trans:
  assumes "consistent_on c S" "a \<in> S" "b \<in> S" "d \<in> S" "cmp_eq c a b" "cmp_eq c b d"
  shows "cmp_eq c a d"
proof -
  have "\<forall>a\<in>S. \<forall>b\<in>S. \<forall>d\<in>S. cmp_eq c a b \<and> cmp_eq c b d \<longrightarrow> cmp_eq c a d"
    using assms(1) unfolding consistent_on_def by (elim conjE)
  then show ?thesis using assms(2-6) by blast
qed

lemma consistent_lt_trans:
  assumes "consistent_on c S" "a \<in> S" "b \<in> S" "d \<in> S" "cmp_lt c a b" "cmp_lt c b d"
  shows "cmp_lt c a d"
proof -
  have "\<forall>a\<in>S. \<forall>b\<in>S. \<forall>d\<in>S. cmp_lt c a b \<and> cmp_lt c b d \<longrightarrow> cmp_lt c a d"
    using assms(1) unfolding consistent_on_def by (elim conjE)
  then show ?thesis using assms(2-6) by blast
qed

lemma consistent_gt_trans:
  assumes "consistent_on c S" "a \<in> S" "b \<in> S" "d \<in> S" "cmp_gt c a b" "cmp_gt c b d"
  shows "cmp_gt c a d"
proof -
  have "\<forall>a\<in>S. \<forall>b\<in>S. \<forall>d\<in>S. cmp_gt c a b \<and> cmp_gt c b d \<longrightarrow> cmp_gt c a d"
    using assms(1) unfolding consistent_on_def by (elim conjE)
  then show ?thesis using assms(2-6) by blast
qed

lemma cmp_cases: "c a b \<noteq> NaN \<Longrightarrow> cmp_lt c a b \<or> cmp_eq c a b \<or> cmp_gt c a b"
  by (cases "c a b") (auto simp: cmp_lt_def cmp_eq_def cmp_gt_def)

lemma cmp_lt_not_eq: "cmp_lt c a b \<Longrightarrow> \<not> cmp_eq c a b"
  by (cases "c a b") (auto simp: cmp_lt_def cmp_eq_def)

lemma cmp_gt_not_eq: "cmp_gt c a b \<Longrightarrow> \<not> cmp_eq c a b"
  by (cases "c a b") (auto simp: cmp_gt_def cmp_eq_def)

lemma cmp_lt_not_gt: "cmp_lt c a b \<Longrightarrow> \<not> cmp_gt c a b"
  by (cases "c a b") (auto simp: cmp_lt_def cmp_gt_def)

lemma consistent_flip_lt:
  assumes c: "consistent_on c S" and a: "a \<in> S" and b: "b \<in> S" and lt: "cmp_lt c a b"
  shows "cmp_gt c b a"
proof (rule ccontr)
  assume n: "\<not> cmp_gt c b a"
  have "c b a \<noteq> NaN" using c b a by (rule consistent_no_NaN)
  then consider "cmp_lt c b a" | "cmp_eq c b a" using n cmp_cases [of c b a] by blast
  then show False
  proof cases
    case 1
    have "cmp_lt c a a" using c a b a lt 1 by (rule consistent_lt_trans)
    moreover have "cmp_eq c a a" using c a by (rule consistent_eq_refl)
    ultimately show False using cmp_lt_not_eq [of c a a] by simp
  next
    case 2
    have "cmp_eq c a b" using c b a 2 by (rule consistent_eq_sym)
    then show False using lt cmp_lt_not_eq [of c a b] by simp
  qed
qed

lemma consistent_flip_gt:
  assumes c: "consistent_on c S" and a: "a \<in> S" and b: "b \<in> S" and gt: "cmp_gt c a b"
  shows "cmp_lt c b a"
proof (rule ccontr)
  assume n: "\<not> cmp_lt c b a"
  have "c b a \<noteq> NaN" using c b a by (rule consistent_no_NaN)
  then consider "cmp_gt c b a" | "cmp_eq c b a" using n cmp_cases [of c b a] by blast
  then show False
  proof cases
    case 1
    have "cmp_gt c a a" using c a b a gt 1 by (rule consistent_gt_trans)
    moreover have "cmp_eq c a a" using c a by (rule consistent_eq_refl)
    ultimately show False using cmp_gt_not_eq [of c a a] by simp
  next
    case 2
    have "cmp_eq c a b" using c b a 2 by (rule consistent_eq_sym)
    then show False using gt cmp_gt_not_eq [of c a b] by simp
  qed
qed

lemma consistent_le_total:
  assumes c: "consistent_on c S" and a: "a \<in> S" and b: "b \<in> S"
  shows "\<not> cmp_gt c a b \<or> \<not> cmp_gt c b a"
proof (rule ccontr)
  assume "\<not> (\<not> cmp_gt c a b \<or> \<not> cmp_gt c b a)"
  then have g1: "cmp_gt c a b" and g2: "cmp_gt c b a" by simp_all
  have "cmp_gt c a a" using c a b a g1 g2 by (rule consistent_gt_trans)
  moreover have "cmp_eq c a a" using c a by (rule consistent_eq_refl)
  ultimately show False using cmp_gt_not_eq [of c a a] by simp
qed

lemma consistent_le_trans:
  assumes c: "consistent_on c S" and a: "a \<in> S" and b: "b \<in> S" and d: "d \<in> S"
    and ab: "\<not> cmp_gt c a b" and bd: "\<not> cmp_gt c b d"
  shows "\<not> cmp_gt c a d"
proof
  assume ad: "cmp_gt c a d"
  have da: "cmp_lt c d a" using c a d ad by (rule consistent_flip_gt)
  have "c a b \<noteq> NaN" using c a b by (rule consistent_no_NaN)
  then have ab': "cmp_lt c a b \<or> cmp_eq c a b" using ab cmp_cases [of c a b] by simp
  have "c b d \<noteq> NaN" using c b d by (rule consistent_no_NaN)
  then have bd': "cmp_lt c b d \<or> cmp_eq c b d" using bd cmp_cases [of c b d] by simp
  show False
  proof (cases "cmp_lt c a b")
    case True
    have db: "cmp_lt c d b" using c d a b da True by (rule consistent_lt_trans)
    show False
    proof (cases "cmp_lt c b d")
      case True
      have "cmp_lt c d d" using c d b d db True by (rule consistent_lt_trans)
      moreover have "cmp_eq c d d" using c d by (rule consistent_eq_refl)
      ultimately show False using cmp_lt_not_eq [of c d d] by simp
    next
      case False
      then have "cmp_eq c b d" using bd' by simp
      then have "cmp_eq c d b" using c b d by (intro consistent_eq_sym [of c S b d])
      then show False using db cmp_lt_not_eq [of c d b] by simp
    qed
  next
    case False
    then have e: "cmp_eq c a b" using ab' by simp
    show False
    proof (cases "cmp_lt c b d")
      case True
      have ba: "cmp_lt c b a" using c b d a True da by (rule consistent_lt_trans)
      have "cmp_eq c b a" using c a b e by (rule consistent_eq_sym)
      then show False using ba cmp_lt_not_eq [of c b a] by simp
    next
      case False
      then have "cmp_eq c b d" using bd' by simp
      then have "cmp_eq c a d" using c a b d e by (intro consistent_eq_trans [of c S a b d])
      then show False using ad cmp_gt_not_eq [of c a d] by simp
    qed
  qed
qed

lemma mset_insort_cmp: "mset (insort_cmp c x xs) = add_mset x (mset xs)"
  by (induction xs) auto

lemma mset_sort_cmp: "mset (sort_cmp c xs) = mset xs"
  by (induction xs) (auto simp: sort_cmp_def mset_insort_cmp)

lemma set_insort_cmp: "set (insort_cmp c x xs) = insert x (set xs)"
  by (metis mset_insort_cmp set_mset_add_mset_insert set_mset_mset)

lemma set_sort_cmp: "set (sort_cmp c xs) = set xs"
  by (metis mset_sort_cmp set_mset_mset)

lemma sorted_insort_cmp:
  assumes c: "consistent_on c S" and x: "x \<in> S"
  shows "set xs \<subseteq> S \<Longrightarrow> sorted_wrt (\<lambda>a b. \<not> cmp_gt c a b) xs \<Longrightarrow>
         sorted_wrt (\<lambda>a b. \<not> cmp_gt c a b) (insort_cmp c x xs)"
proof (induction xs)
  case Nil
  then show ?case by simp
next
  case (Cons y ys)
  have y: "y \<in> S" and ys: "set ys \<subseteq> S" using Cons.prems(1) by auto
  show ?case
  proof (cases "cmp_gt c x y")
    case True
    then have yx: "\<not> cmp_gt c y x" using consistent_le_total [OF c x y] by blast
    have "sorted_wrt (\<lambda>a b. \<not> cmp_gt c a b) (insort_cmp c x ys)"
      using Cons.IH ys Cons.prems(2) by simp
    then show ?thesis using True yx Cons.prems(2) by (auto simp: set_insort_cmp)
  next
    case False
    have "\<And>z. z \<in> set ys \<Longrightarrow> \<not> cmp_gt c x z"
    proof -
      fix z assume z: "z \<in> set ys"
      then have "\<not> cmp_gt c y z" using Cons.prems(2) by simp
      then show "\<not> cmp_gt c x z"
        using consistent_le_trans [OF c x y _ False] z ys by blast
    qed
    then show ?thesis using False Cons.prems(2) by auto
  qed
qed

lemma sorted_sort_cmp:
  assumes c: "consistent_on c S"
  shows "set xs \<subseteq> S \<Longrightarrow> sorted_wrt (\<lambda>a b. \<not> cmp_gt c a b) (sort_cmp c xs)"
proof (induction xs)
  case Nil
  then show ?case by (simp add: sort_cmp_def)
next
  case (Cons x xs)
  have "sorted_wrt (\<lambda>a b. \<not> cmp_gt c a b) (insort_cmp c x (sort_cmp c xs))"
    using Cons by (intro sorted_insort_cmp [OF c]) (auto simp: set_sort_cmp)
  then show ?case by (simp add: sort_cmp_def)
qed

lemma ordered_by_sort_cmp:
  assumes c: "consistent_on c (set xs)"
  shows "ordered_by c (sort_cmp c xs)"
proof -
  have s: "sorted_wrt (\<lambda>a b. \<not> cmp_gt c a b) (sort_cmp c xs)"
    using c by (rule sorted_sort_cmp) simp
  have m: "\<And>a b. a \<in> set (sort_cmp c xs) \<Longrightarrow> b \<in> set (sort_cmp c xs) \<Longrightarrow>
           \<not> cmp_gt c a b \<Longrightarrow> \<not> cmp_lt c b a"
    using consistent_flip_lt [OF c] by (auto simp: set_sort_cmp)
  show ?thesis
    unfolding ordered_by_def by (rule sorted_wrt_mono_rel [OF _ s]) (rule m)
qed

lemma sort_cmp_contract: "sort_contract sort_cmp"
  unfolding sort_contract_def by (intro allI conjI impI mset_sort_cmp ordered_by_sort_cmp)

lemma consistent_onI:
  assumes "\<And>a b. a \<in> S \<Longrightarrow> b \<in> S \<Longrightarrow> c a b \<noteq> NaN"
    and "\<And>a. a \<in> S \<Longrightarrow> cmp_eq c a a"
    and "\<And>a b. a \<in> S \<Longrightarrow> b \<in> S \<Longrightarrow> cmp_eq c a b \<Longrightarrow> cmp_eq c b a"
    and "\<And>a b d. a \<in> S \<Longrightarrow> b \<in> S \<Longrightarrow> d \<in> S \<Longrightarrow> cmp_eq c a b \<Longrightarrow> cmp_eq c b d \<Longrightarrow> cmp_eq c a d"
    and "\<And>a b d. a \<in> S \<Longrightarrow> b \<in> S \<Longrightarrow> d \<in> S \<Longrightarrow> cmp_lt c a b \<Longrightarrow> cmp_lt c b d \<Longrightarrow> cmp_lt c a d"
    and "\<And>a b d. a \<in> S \<Longrightarrow> b \<in> S \<Longrightarrow> d \<in> S \<Longrightarrow> cmp_gt c a b \<Longrightarrow> cmp_gt c b d \<Longrightarrow> cmp_gt c a d"
  shows "consistent_on c S"
  unfolding consistent_on_def
proof (intro conjI ballI impI)
  fix a b assume "a \<in> S" "b \<in> S" then show "c a b \<noteq> NaN" by (rule assms(1))
next
  fix a assume "a \<in> S" then show "cmp_eq c a a" by (rule assms(2))
next
  fix a b assume "a \<in> S" "b \<in> S" "cmp_eq c a b" then show "cmp_eq c b a" by (rule assms(3))
next
  fix a b d assume "a \<in> S" "b \<in> S" "d \<in> S" "cmp_eq c a b \<and> cmp_eq c b d"
  then show "cmp_eq c a d" using assms(4) [of a b d] by simp
next
  fix a b d assume "a \<in> S" "b \<in> S" "d \<in> S" "cmp_lt c a b \<and> cmp_lt c b d"
  then show "cmp_lt c a d" using assms(5) [of a b d] by simp
next
  fix a b d assume "a \<in> S" "b \<in> S" "d \<in> S" "cmp_gt c a b \<and> cmp_gt c b d"
  then show "cmp_gt c a d" using assms(6) [of a b d] by simp
qed

lemma consistent_index: "consistent_on (\<lambda>i j. Fin (real_of_int (int i - int j))) S"
  by (rule consistent_onI) (simp_all add: cmp_eq_def cmp_lt_def cmp_gt_def)

lemma consistent_map:
  assumes "consistent_on f (g ` S)"
  shows "consistent_on (\<lambda>i j. f (g i) (g j)) S"
proof (rule consistent_onI)
  fix a b assume "a \<in> S" "b \<in> S"
  then show "f (g a) (g b) \<noteq> NaN" using consistent_no_NaN [OF assms, of "g a" "g b"] by simp
next
  fix a assume "a \<in> S"
  then show "cmp_eq (\<lambda>i j. f (g i) (g j)) a a"
    using consistent_eq_refl [OF assms, of "g a"] by (simp add: cmp_eq_def)
next
  fix a b assume "a \<in> S" "b \<in> S" "cmp_eq (\<lambda>i j. f (g i) (g j)) a b"
  then show "cmp_eq (\<lambda>i j. f (g i) (g j)) b a"
    using consistent_eq_sym [OF assms, of "g a" "g b"] by (simp add: cmp_eq_def)
next
  fix a b d assume "a \<in> S" "b \<in> S" "d \<in> S"
    "cmp_eq (\<lambda>i j. f (g i) (g j)) a b" "cmp_eq (\<lambda>i j. f (g i) (g j)) b d"
  then show "cmp_eq (\<lambda>i j. f (g i) (g j)) a d"
    using consistent_eq_trans [OF assms, of "g a" "g b" "g d"] by (simp add: cmp_eq_def)
next
  fix a b d assume "a \<in> S" "b \<in> S" "d \<in> S"
    "cmp_lt (\<lambda>i j. f (g i) (g j)) a b" "cmp_lt (\<lambda>i j. f (g i) (g j)) b d"
  then show "cmp_lt (\<lambda>i j. f (g i) (g j)) a d"
    using consistent_lt_trans [OF assms, of "g a" "g b" "g d"] by (simp add: cmp_lt_def)
next
  fix a b d assume "a \<in> S" "b \<in> S" "d \<in> S"
    "cmp_gt (\<lambda>i j. f (g i) (g j)) a b" "cmp_gt (\<lambda>i j. f (g i) (g j)) b d"
  then show "cmp_gt (\<lambda>i j. f (g i) (g j)) a d"
    using consistent_gt_trans [OF assms, of "g a" "g b" "g d"] by (simp add: cmp_gt_def)
qed

lemma consistent_lt_eq:
  assumes c: "consistent_on c S" and a: "a \<in> S" and b: "b \<in> S" and d: "d \<in> S"
    and ab: "cmp_lt c a b" and bd: "cmp_eq c b d"
  shows "cmp_lt c a d"
proof (rule ccontr)
  assume n: "\<not> cmp_lt c a d"
  have db: "cmp_eq c d b" using c b d bd by (rule consistent_eq_sym)
  have "c a d \<noteq> NaN" using c a d by (rule consistent_no_NaN)
  then consider "cmp_eq c a d" | "cmp_gt c a d" using n cmp_cases [of c a d] by blast
  then show False
  proof cases
    case 1
    have "cmp_eq c a b" using c a d b 1 db by (rule consistent_eq_trans)
    then show False using ab cmp_lt_not_eq [of c a b] by simp
  next
    case 2
    have "cmp_lt c d a" using c a d 2 by (rule consistent_flip_gt)
    then have "cmp_lt c d b" using c d a b ab by (intro consistent_lt_trans [of c S d a b])
    then show False using db cmp_lt_not_eq [of c d b] by simp
  qed
qed

lemma consistent_eq_lt:
  assumes c: "consistent_on c S" and a: "a \<in> S" and b: "b \<in> S" and d: "d \<in> S"
    and ab: "cmp_eq c a b" and bd: "cmp_lt c b d"
  shows "cmp_lt c a d"
proof (rule ccontr)
  assume n: "\<not> cmp_lt c a d"
  have ba: "cmp_eq c b a" using c a b ab by (rule consistent_eq_sym)
  have "c a d \<noteq> NaN" using c a d by (rule consistent_no_NaN)
  then consider "cmp_eq c a d" | "cmp_gt c a d" using n cmp_cases [of c a d] by blast
  then show False
  proof cases
    case 1
    have "cmp_eq c b d" using c b a d ba 1 by (rule consistent_eq_trans)
    then show False using bd cmp_lt_not_eq [of c b d] by simp
  next
    case 2
    have "cmp_lt c d a" using c a d 2 by (rule consistent_flip_gt)
    then have "cmp_lt c b a" using c b d a bd by (intro consistent_lt_trans [of c S b d a])
    then show False using ba cmp_lt_not_eq [of c b a] by simp
  qed
qed

lemma consistent_gt_eq:
  assumes c: "consistent_on c S" and a: "a \<in> S" and b: "b \<in> S" and d: "d \<in> S"
    and ab: "cmp_gt c a b" and bd: "cmp_eq c b d"
  shows "cmp_gt c a d"
proof -
  have "cmp_lt c b a" using c a b ab by (rule consistent_flip_gt)
  moreover have "cmp_eq c d b" using c b d bd by (rule consistent_eq_sym)
  ultimately have "cmp_lt c d a" using c d b a by (intro consistent_eq_lt [of c S d b a])
  then show ?thesis using c d a by (intro consistent_flip_lt [of c S d a])
qed

lemma consistent_eq_gt:
  assumes c: "consistent_on c S" and a: "a \<in> S" and b: "b \<in> S" and d: "d \<in> S"
    and ab: "cmp_eq c a b" and bd: "cmp_gt c b d"
  shows "cmp_gt c a d"
proof -
  have "cmp_lt c d b" using c b d bd by (rule consistent_flip_gt)
  moreover have "cmp_eq c b a" using c a b ab by (rule consistent_eq_sym)
  ultimately have "cmp_lt c d a" using c d b a by (intro consistent_lt_eq [of c S d b a])
  then show ?thesis using c d a by (intro consistent_flip_lt [of c S d a])
qed

text \<open>The first comparator decides unless it returns zero.\<close>

lemma lex_eq:
  "cmp_eq (\<lambda>a b. if c1 a b \<noteq> Fin 0 then c1 a b else c2 a b) a b \<longleftrightarrow> cmp_eq c1 a b \<and> cmp_eq c2 a b"
  by (simp add: cmp_eq_def)

lemma lex_lt:
  "cmp_lt (\<lambda>a b. if c1 a b \<noteq> Fin 0 then c1 a b else c2 a b) a b \<longleftrightarrow>
     cmp_lt c1 a b \<or> (cmp_eq c1 a b \<and> cmp_lt c2 a b)"
  by (cases "c1 a b") (auto simp: cmp_eq_def cmp_lt_def)

lemma lex_gt:
  "cmp_gt (\<lambda>a b. if c1 a b \<noteq> Fin 0 then c1 a b else c2 a b) a b \<longleftrightarrow>
     cmp_gt c1 a b \<or> (cmp_eq c1 a b \<and> cmp_gt c2 a b)"
  by (cases "c1 a b") (auto simp: cmp_eq_def cmp_gt_def)

lemma consistent_lex:
  assumes c1: "consistent_on c1 S" and c2: "consistent_on c2 S"
  shows "consistent_on (\<lambda>a b. if c1 a b \<noteq> Fin 0 then c1 a b else c2 a b) S"
proof (rule consistent_onI)
  fix a b assume "a \<in> S" "b \<in> S"
  then show "(if c1 a b \<noteq> Fin 0 then c1 a b else c2 a b) \<noteq> NaN"
    using consistent_no_NaN [OF c1, of a b] consistent_no_NaN [OF c2, of a b] by simp
next
  fix a assume "a \<in> S"
  then show "cmp_eq (\<lambda>a b. if c1 a b \<noteq> Fin 0 then c1 a b else c2 a b) a a"
    unfolding lex_eq using consistent_eq_refl [OF c1] consistent_eq_refl [OF c2] by simp
next
  fix a b assume "a \<in> S" "b \<in> S" "cmp_eq (\<lambda>a b. if c1 a b \<noteq> Fin 0 then c1 a b else c2 a b) a b"
  then show "cmp_eq (\<lambda>a b. if c1 a b \<noteq> Fin 0 then c1 a b else c2 a b) b a"
    unfolding lex_eq using consistent_eq_sym [OF c1, of a b] consistent_eq_sym [OF c2, of a b] by simp
next
  fix a b d assume "a \<in> S" "b \<in> S" "d \<in> S"
    "cmp_eq (\<lambda>a b. if c1 a b \<noteq> Fin 0 then c1 a b else c2 a b) a b"
    "cmp_eq (\<lambda>a b. if c1 a b \<noteq> Fin 0 then c1 a b else c2 a b) b d"
  then show "cmp_eq (\<lambda>a b. if c1 a b \<noteq> Fin 0 then c1 a b else c2 a b) a d"
    unfolding lex_eq
    using consistent_eq_trans [OF c1, of a b d] consistent_eq_trans [OF c2, of a b d] by simp
next
  fix a b d assume S: "a \<in> S" "b \<in> S" "d \<in> S"
    and ab: "cmp_lt (\<lambda>a b. if c1 a b \<noteq> Fin 0 then c1 a b else c2 a b) a b"
    and bd: "cmp_lt (\<lambda>a b. if c1 a b \<noteq> Fin 0 then c1 a b else c2 a b) b d"
  show "cmp_lt (\<lambda>a b. if c1 a b \<noteq> Fin 0 then c1 a b else c2 a b) a d"
    using ab bd unfolding lex_lt
    using consistent_lt_trans [OF c1 S] consistent_lt_eq [OF c1 S] consistent_eq_lt [OF c1 S]
      consistent_eq_trans [OF c1 S] consistent_lt_trans [OF c2 S]
    by blast
next
  fix a b d assume S: "a \<in> S" "b \<in> S" "d \<in> S"
    and ab: "cmp_gt (\<lambda>a b. if c1 a b \<noteq> Fin 0 then c1 a b else c2 a b) a b"
    and bd: "cmp_gt (\<lambda>a b. if c1 a b \<noteq> Fin 0 then c1 a b else c2 a b) b d"
  show "cmp_gt (\<lambda>a b. if c1 a b \<noteq> Fin 0 then c1 a b else c2 a b) a d"
    using ab bd unfolding lex_gt
    using consistent_gt_trans [OF c1 S] consistent_gt_eq [OF c1 S] consistent_eq_gt [OF c1 S]
      consistent_eq_trans [OF c1 S] consistent_gt_trans [OF c2 S]
    by blast
qed

lemma compare_rows_consistent:
  assumes "\<And>key f colump. (key, f) \<in> set orders \<Longrightarrow> cols key = Some colump \<Longrightarrow>
             consistent_on f (js_get colump ` S)"
  shows "consistent_on (compare_rows cols orders) S"
  using assms
proof (induction orders)
  case Nil
  have "compare_rows cols [] = (\<lambda>i j. Fin (real_of_int (int i - int j)))"
    by (intro ext) simp
  then show ?case by (simp only: consistent_index)
next
  case (Cons a orders)
  obtain key f where a: "a = (key, f)" by (cases a)
  have rest: "consistent_on (compare_rows cols orders) S"
    by (rule Cons.IH) (use Cons.prems in auto)
  show ?case
  proof (cases "cols key")
    case None
    then have "compare_rows cols (a # orders) = compare_rows cols orders"
      unfolding a by (intro ext) simp
    then show ?thesis using rest by simp
  next
    case (Some colump)
    let ?c1 = "\<lambda>i j. f (js_get colump i) (js_get colump j)"
    have eq: "compare_rows cols (a # orders) =
            (\<lambda>i j. if ?c1 i j \<noteq> Fin 0 then ?c1 i j else compare_rows cols orders i j)"
      unfolding a using Some by (intro ext) (simp add: Let_def)
    have "consistent_on f (js_get colump ` S)"
      using Cons.prems [of key f colump] Some a by simp
    then have "consistent_on ?c1 S" by (rule consistent_map)
    then show ?thesis unfolding eq using rest by (rule consistent_lex)
  qed
qed

lemma consistent_key: "consistent_on (\<lambda>a b. Fin (real_of_int (k a - k b))) S"
  by (rule consistent_onI) (simp_all add: cmp_eq_def cmp_lt_def cmp_gt_def)

lemma consistent_on_cong:
  assumes "\<And>a b. a \<in> S \<Longrightarrow> b \<in> S \<Longrightarrow> c a b = c' a b" and c: "consistent_on c' S"
  shows "consistent_on c S"
proof (rule consistent_onI)
  fix a b assume "a \<in> S" "b \<in> S"
  then show "c a b \<noteq> NaN" using consistent_no_NaN [OF c, of a b] assms(1) by simp
next
  fix a assume "a \<in> S"
  then show "cmp_eq c a a" using consistent_eq_refl [OF c, of a] assms(1) by (simp add: cmp_eq_def)
next
  fix a b assume "a \<in> S" "b \<in> S" "cmp_eq c a b"
  then show "cmp_eq c b a"
    using consistent_eq_sym [OF c, of a b] assms(1) by (simp add: cmp_eq_def)
next
  fix a b d assume "a \<in> S" "b \<in> S" "d \<in> S" "cmp_eq c a b" "cmp_eq c b d"
  then show "cmp_eq c a d"
    using consistent_eq_trans [OF c, of a b d] assms(1) by (simp add: cmp_eq_def)
next
  fix a b d assume "a \<in> S" "b \<in> S" "d \<in> S" "cmp_lt c a b" "cmp_lt c b d"
  then show "cmp_lt c a d"
    using consistent_lt_trans [OF c, of a b d] assms(1) by (simp add: cmp_lt_def)
next
  fix a b d assume "a \<in> S" "b \<in> S" "d \<in> S" "cmp_gt c a b" "cmp_gt c b d"
  then show "cmp_gt c a d"
    using consistent_gt_trans [OF c, of a b d] assms(1) by (simp add: cmp_gt_def)
qed

text \<open>The nominal order is consistent on strings.\<close>

lemma nominal_order_consistent:
  assumes "\<And>v. v \<in> S \<Longrightarrow> \<exists>s. v = Str s"
  shows "consistent_on (nominal_order levelValues specialValues) S"
proof -
  define k where "k v = (case v of
      Str s \<Rightarrow> (let x = indexOf levelValues s
                in if x < 0 then int (length levelValues) + indexOf specialValues s else x)
    | _ \<Rightarrow> 0)" for v
  have "\<And>a b. a \<in> S \<Longrightarrow> b \<in> S \<Longrightarrow>
          nominal_order levelValues specialValues a b = Fin (real_of_int (k a - k b))"
  proof -
    fix a b assume "a \<in> S" "b \<in> S"
    then obtain sa sb where "a = Str sa" "b = Str sb" using assms by blast
    then show "nominal_order levelValues specialValues a b = Fin (real_of_int (k a - k b))"
      by (simp add: nominal_order_def k_def Let_def)
  qed
  then show ?thesis using consistent_key by (rule consistent_on_cong)
qed

subsection \<open>Grouping rows by key\<close>

lemma map_push_keys: "fst ` set (map_push k i m) = insert k (fst ` set m)"
proof (induction m)
  case Nil
  then show ?case by simp
next
  case (Cons a m)
  obtain k' e where a: "a = (k', e)" by (cases a)
  show ?case using Cons unfolding a by (cases "k = k'") auto
qed

lemma map_push_distinct: "distinct (map fst m) \<Longrightarrow> distinct (map fst (map_push k i m))"
  by (induction m) (auto simp: map_push_keys)

lemma map_push_map_of:
  "map_of (map_push k i m) k' =
     (if k' = k then Some (nullish (map_of m k) [] @ [i]) else map_of m k')"
  by (induction m) (auto simp: nullish_def)

lemma map_push_mset:
  "mset (concat (map snd (map_push k i m))) = add_mset i (mset (concat (map snd m)))"
  by (induction m) auto

lemma foldl_map_push_distinct:
  "distinct (map fst m) \<Longrightarrow> distinct (map fst (foldl (\<lambda>m i. map_push (k i) i m) m rows))"
  by (induction rows arbitrary: m) (auto simp: map_push_distinct)

lemma foldl_map_push_mset:
  "mset (concat (map snd (foldl (\<lambda>m i. map_push (k i) i m) m rows))) =
     mset (concat (map snd m)) + mset rows"
  by (induction rows arbitrary: m) (auto simp: map_push_mset)

lemma foldl_map_push_map_of:
  "map_of (foldl (\<lambda>m i. map_push (k i) i m) m rows) key =
     (if filter (\<lambda>i. k i = key) rows = [] then map_of m key
      else Some (nullish (map_of m key) [] @ filter (\<lambda>i. k i = key) rows))"
  by (induction rows arbitrary: m) (auto simp: map_push_map_of nullish_def)

lemma group_rows_distinct_keys: "distinct (map fst (group_rows data by))"
  unfolding group_rows_def by (rule foldl_map_push_distinct) simp

lemma group_rows_entry:
  "(key, entry) \<in> set (group_rows data by) \<longleftrightarrow>
     entry = filter (\<lambda>i. row_key data by i = key) [0..<t_length data] \<and> entry \<noteq> []"
proof -
  have "(key, entry) \<in> set (group_rows data by) \<longleftrightarrow> map_of (group_rows data by) key = Some entry"
    using group_rows_distinct_keys by simp
  also have "\<dots> \<longleftrightarrow> entry = filter (\<lambda>i. row_key data by i = key) [0..<t_length data] \<and> entry \<noteq> []"
    unfolding group_rows_def by (auto simp: foldl_map_push_map_of nullish_def)
  finally show ?thesis .
qed

lemma group_rows_partition:
  "mset (concat (map snd (group_rows data by))) = mset [0..<t_length data]"
  unfolding group_rows_def by (simp add: foldl_map_push_mset)

lemma group_rows_rows_distinct: "distinct (concat (map snd (group_rows data by)))"
  using group_rows_partition [of data "by"]
  by (metis distinct_upt mset_eq_imp_distinct_iff)

lemma group_rows_increasing:
  assumes "(key, entry) \<in> set (group_rows data by)"
  shows "sorted_wrt (<) entry"
proof -
  have "entry = filter (\<lambda>i. row_key data by i = key) [0..<t_length data]"
    using assms by (simp add: group_rows_entry)
  moreover have "sorted_wrt (<) [0..<t_length data]"
    by (simp add: sorted_wrt_upt)
  ultimately show ?thesis by (simp add: sorted_wrt_filter)
qed

lemma same_group_row_key:
  assumes "i < t_length data" and "j < t_length data"
  shows "same_group data by i j \<longleftrightarrow> row_key data by i = row_key data by j"
proof
  assume "same_group data by i j"
  then obtain key entry where m: "(key, entry) \<in> set (group_rows data by)"
    and i: "i \<in> set entry" and j: "j \<in> set entry"
    by (auto simp: same_group_def list_ex_iff)
  have "entry = filter (\<lambda>i. row_key data by i = key) [0..<t_length data]"
    using m by (simp add: group_rows_entry)
  then have "row_key data by i = key" "row_key data by j = key"
    using i j by auto
  then show "row_key data by i = row_key data by j" by simp
next
  assume eq: "row_key data by i = row_key data by j"
  let ?e = "filter (\<lambda>r. row_key data by r = row_key data by i) [0..<t_length data]"
  have ie: "i \<in> set ?e" and je: "j \<in> set ?e" using assms eq by simp_all
  have "?e \<noteq> []" using ie by (metis empty_iff empty_set)
  then have "(row_key data by i, ?e) \<in> set (group_rows data by)"
    using group_rows_entry [of "row_key data by i" ?e data "by"] by simp
  then show "same_group data by i j"
    unfolding same_group_def list_ex_iff using ie je by blast
qed

lemma key_of_number_eq: "key_of_number a = key_of_number b \<longleftrightarrow> same_json_number a b"
  by (cases a; cases b) simp_all

lemma key_of_number_null: "key_of_number a = KNull \<longleftrightarrow> not_finite a"
  by (cases a) simp_all

lemma key_of_number_other [simp]:
  "key_of_number n \<noteq> KString s" "KString s \<noteq> key_of_number n"
  "key_of_number n \<noteq> KUndefined" "KUndefined \<noteq> key_of_number n"
  "key_of_number n \<noteq> KArray x y" "KArray x y \<noteq> key_of_number n"
  by (cases n; simp)+

lemma null_key_of_number: "KNull = key_of_number a \<longleftrightarrow> not_finite a"
  by (cases a) simp_all

lemma JSON_stringify_eq: "JSON_stringify a = JSON_stringify b \<longleftrightarrow> same_json_text a b"
  by (cases a; cases b)
     (simp_all add: key_of_number_eq key_of_number_null null_key_of_number)

lemma same_json_number_finite: "\<not> not_finite a \<Longrightarrow> \<not> not_finite b \<Longrightarrow> same_json_number a b \<longleftrightarrow> a = b"
  by (cases a; cases b) simp_all

lemma same_json_text_plain:
  "finite_or_no_number a \<Longrightarrow> finite_or_no_number b \<Longrightarrow> same_json_text a b \<longleftrightarrow> a = b"
  by (induction a b rule: same_json_text.induct)
     (auto elim!: finite_or_no_number.elims same_json_number.elims)

lemma row_key_eq:
  "row_key data by i = row_key data by j \<longleftrightarrow>
     (case t_columns data (axis_name by) of
        None \<Rightarrow> True
      | Some bycol \<Rightarrow> same_json_text (js_get bycol i) (js_get bycol j))"
  by (simp add: row_key_def JSON_stringify_eq split: option.splits)

subsection \<open>Stacking all groups\<close>

lemma stack_all_other:
  assumes perm: "\<And>xs. mset (srt xs) = mset xs"
  shows "j \<notin> set (concat gs) \<Longrightarrow>
   js_get (foldl (\<lambda>col entry. stack_entry rnd (srt entry) (Fin 0) col) col gs) j = js_get col j"
proof (induction gs arbitrary: col)
  case Nil
  then show ?case by simp
next
  case (Cons g rest)
  have "set (srt g) = set g" by (metis perm set_mset_mset)
  then have "j \<notin> set (srt g)" using Cons.prems by simp
  then have "js_get (stack_entry rnd (srt g) (Fin 0) col) j = js_get col j"
    by (rule stack_entry_other)
  then show ?case using Cons by simp
qed

lemma stack_all_at:
  assumes perm: "\<And>xs. mset (srt xs) = mset xs"
    and "distinct (concat gs)" and "g \<in> set gs" and "p < length (srt g)"
  shows "js_get (foldl (\<lambda>col entry. stack_entry rnd (srt entry) (Fin 0) col) col gs) (srt g ! p) =
           stacked_value rnd col (srt g) p"
  using assms(2-4)
proof (induction gs arbitrary: col)
  case Nil
  then show ?case by simp
next
  case (Cons g0 rest)
  let ?col' = "stack_entry rnd (srt g0) (Fin 0) col"
  let ?s = "srt g"
  have set_srt: "\<And>xs. set (srt xs) = set xs" by (metis perm set_mset_mset)
  have dist_srt: "\<And>xs. distinct (srt xs) = distinct xs" by (metis perm mset_eq_imp_distinct_iff)
  have d0: "distinct g0" and dr: "distinct (concat rest)"
    and disj: "set g0 \<inter> set (concat rest) = {}"
    using Cons.prems(1) by auto
  have sp: "?s ! p \<in> set g"
    using Cons.prems(3) by (metis nth_mem set_srt)
  show ?case
  proof (cases "g \<in> set rest")
    case True
    then have sub: "set g \<subseteq> set (concat rest)" by auto
    have same: "\<And>r. r \<in> set ?s \<Longrightarrow> js_get ?col' r = js_get col r"
    proof -
      fix r assume "r \<in> set ?s"
      then have "r \<notin> set (srt g0)" using sub disj by (auto simp: set_srt)
      then show "js_get ?col' r = js_get col r" by (rule stack_entry_other)
    qed
    have "js_get (foldl (\<lambda>col entry. stack_entry rnd (srt entry) (Fin 0) col) ?col' rest) (?s ! p) =
            stacked_value rnd ?col' ?s p"
      using Cons.IH [OF dr True Cons.prems(3)] .
    also have "\<dots> = stacked_value rnd col ?s p"
      using same Cons.prems(3) by (rule stacked_value_cong)
    finally show ?thesis by simp
  next
    case False
    then have g: "g = g0" using Cons.prems(2) by simp
    have "?s ! p \<notin> set (concat rest)" using sp disj g by auto
    then have "js_get (foldl (\<lambda>col entry. stack_entry rnd (srt entry) (Fin 0) col) ?col' rest) (?s ! p) =
            js_get ?col' (?s ! p)"
      by (rule stack_all_other [OF perm])
    also have "\<dots> = stacked_value rnd col ?s p"
      using d0 Cons.prems(3) unfolding g
      by (intro stack_entry_stacked_value) (simp_all add: dist_srt)
    finally show ?thesis by simp
  qed
qed

lemma compare_rows_first_nonzero:
  "compare_rows cols orders i1 i2 =
     (case find (\<lambda>r. r \<noteq> Fin 0) (order_results cols orders i1 i2) of
        Some r \<Rightarrow> r
      | None \<Rightarrow> Fin (real_of_int (int i1 - int i2)))"
  by (induction orders)
     (auto simp: order_results_def List.map_filter_simps Let_def split: option.splits)

lemma stack_result:
  "t_columns data (axis_name (other_axis by)) = Some col \<Longrightarrow>
   stack rnd js_sort data by orders =
     Inr \<lparr> t_length = t_length data,
           t_columns = (t_columns data)(axis_name (other_axis by) \<mapsto>
             foldl (\<lambda>col entry.
                      stack_entry rnd (js_sort (compare_rows (t_columns data) orders) entry) (Fin 0) col)
                   col (map snd (group_rows data by))) \<rparr>"
  by (simp add: stack_def Let_def)

lemma group_rows_example: "group_rows example_table AxisX = [(KString ''a'', [0, 1, 2])]"
  by (simp add: example_table_def group_rows_def row_key_def js_get_def upt_rec numeral_nat)

text \<open>An engine that keeps the promise leaves rows in row order when no orders are given.\<close>

lemma index_order_sorted:
  assumes "sort_contract js_sort" and "sorted_wrt (<) xs"
  shows "js_sort (compare_rows cols []) xs = xs"
proof -
  let ?c = "compare_rows cols []"
  let ?ys = "js_sort ?c xs"
  have c: "?c = (\<lambda>i j. Fin (real_of_int (int i - int j)))" by (intro ext) simp
  have m: "mset ?ys = mset xs" using assms(1) by (simp add: sort_contract_def)
  have "consistent_on ?c (set xs)" unfolding c by (rule consistent_index)
  then have "ordered_by ?c ?ys" using assms(1) by (simp add: sort_contract_def)
  then have "sorted_wrt (\<lambda>a b. \<not> b < a) ?ys"
    unfolding c by (simp add: ordered_by_def cmp_lt_def)
  then have "sorted ?ys" by (simp add: sorted_wrt_iff_nth_less sorted_iff_nth_mono_less not_less)
  moreover have "sorted xs" using assms(2) by (simp add: strict_sorted_iff)
  ultimately show ?thesis using m
    by (metis properties_for_sort sorted_sort_id)
qed

lemma stack_example:
  assumes "sort_contract js_sort" and "rnd 3 = Fin 3" and "rnd 5 = Fin 5"
  shows "stack rnd js_sort example_table AxisX [] =
     Inr \<lparr> t_length = 3,
           t_columns = [''x'' \<mapsto> [Str ''a'', Str ''a'', Str ''a''],
                        ''y'' \<mapsto> [Arr2 (Fin 0) (Fin 3), Null, Arr2 (Fin 3) (Fin 5)]] \<rparr>"
proof -
  have s: "js_sort (compare_rows (t_columns example_table) []) [0, 1, 2] = [0, 1, 2]"
    using assms(1) by (rule index_order_sorted) simp
  have c: "t_columns example_table (axis_name (other_axis AxisX)) =
             Some [Number (Fin 3), Number NaN, Number (Fin 2)]"
    by (simp add: example_table_def)
  have e: "stack_entry rnd [0, 1, 2] (Fin 0) [Number (Fin 3), Number NaN, Number (Fin 2)] =
             [Arr2 (Fin 0) (Fin 3), Null, Arr2 (Fin 3) (Fin 5)]"
    by (simp add: js_get_def js_put_def assms(2,3) Let_def)
  show ?thesis
    unfolding stack_result [OF c] group_rows_example list.map snd_conv foldl.simps s e
    by (simp add: example_table_def)
qed

lemma group_rows_colored:
  "group_rows colored_table AxisX = [(KString ''a'', [0, 2]), (KString ''b'', [1, 3])]"
  by (simp add: colored_table_def group_rows_def row_key_def js_get_def upt_rec numeral_nat)

lemma compare_colored:
  "compare_rows (t_columns colored_table) color_orders 0 2 = Fin 1"
  "compare_rows (t_columns colored_table) color_orders 2 0 = Fin (- 1)"
  "compare_rows (t_columns colored_table) color_orders (Suc 0) 3 = Fin (- 1)"
  "compare_rows (t_columns colored_table) color_orders 3 (Suc 0) = Fin 1"
  by (simp_all add: colored_table_def color_orders_def nominal_order_def js_get_def Let_def)

lemma sort_colored:
  "sort_cmp (compare_rows (t_columns colored_table) color_orders) [0, 2] = [2, 0]"
  "sort_cmp (compare_rows (t_columns colored_table) color_orders) [1, 3] = [1, 3]"
  by (simp_all add: sort_cmp_def cmp_gt_def compare_colored)

lemma group_rows_infinities: "group_rows infinities_table AxisX = [(KNull, [0, 1])]"
  by (simp add: infinities_table_def group_rows_def row_key_def js_get_def upt_rec numeral_nat)



text \<open>
  Claim C5, as amended. For a table that has the stacked column, and an engine whose
  sort keeps the promise of the language: \<open>stack\<close> returns the table with the stacked
  column replaced. Every row is in exactly one group. Two rows are in the same group
  exactly when their values in the grouping column print the same JSON text (always,
  when the table has no grouping column); for values that hold no number other than
  finite ones, that is when the values are equal. A group lists its rows in row order;
  sorting permutes it, and leaves it in the comparator's order whenever the supplied
  order functions are consistent comparators on the group's values; the comparator
  returns the first non-zero result of the order functions and otherwise the difference
  of the row indices. The row at each position of the sorted group gets the interval
  from the running sum of the finite values before it to that sum plus its own value,
  the sums taken as JavaScript adds numbers, and null when its own value is not a
  finite number, which also leaves the running sum as it was. In particular the group
  3, NaN, 2 becomes [0,3], null, [3,5].
\<close>

theorem stack_orders_and_accumulates:
  fixes data :: DataTable and orders :: "(string \<times> order_fn) list"
    and rnd :: "real \<Rightarrow> jsnum" and js_sort :: sort_engine
  defines "cmp \<equiv> compare_rows (t_columns data) orders"
  assumes col: "t_columns data (axis_name (other_axis by)) = Some col"
    and engine: "sort_contract js_sort"
  shows "\<exists>newcol.
     stack rnd js_sort data by orders =
       Inr \<lparr> t_length = t_length data,
             t_columns = (t_columns data)(axis_name (other_axis by) \<mapsto> newcol) \<rparr> \<and>
     mset (concat (map snd (group_rows data by))) = mset [0..<t_length data] \<and>
     (\<forall>i < t_length data. \<forall>j < t_length data.
        same_group data by i j \<longleftrightarrow>
          (case t_columns data (axis_name by) of
             None \<Rightarrow> True
           | Some bycol \<Rightarrow> same_json_text (js_get bycol i) (js_get bycol j))) \<and>
     (\<forall>bycol. t_columns data (axis_name by) = Some bycol \<longrightarrow>
        (\<forall>i < t_length data. \<forall>j < t_length data.
           finite_or_no_number (js_get bycol i) \<and> finite_or_no_number (js_get bycol j) \<longrightarrow>
           (same_group data by i j \<longleftrightarrow> js_get bycol i = js_get bycol j))) \<and>
     (\<forall>key entry. (key, entry) \<in> set (group_rows data by) \<longrightarrow>
        sorted_wrt (<) entry \<and>
        mset (js_sort cmp entry) = mset entry \<and>
        ((\<forall>(k, f) \<in> set orders. \<forall>colump. t_columns data k = Some colump \<longrightarrow>
             consistent_on f (js_get colump ` set entry)) \<longrightarrow>
           ordered_by cmp (js_sort cmp entry)) \<and>
        (\<forall>p < length entry.
           js_get newcol (js_sort cmp entry ! p) = stacked_value rnd col (js_sort cmp entry) p)) \<and>
     (\<forall>i j. cmp i j =
        (case find (\<lambda>r. r \<noteq> Fin 0) (order_results (t_columns data) orders i j) of
           Some r \<Rightarrow> r
         | None \<Rightarrow> Fin (real_of_int (int i - int j)))) \<and>
     (rnd 3 = Fin 3 \<and> rnd 5 = Fin 5 \<longrightarrow>
        stack rnd js_sort example_table AxisX [] =
          Inr \<lparr> t_length = 3,
                t_columns = [''x'' \<mapsto> [Str ''a'', Str ''a'', Str ''a''],
                             ''y'' \<mapsto> [Arr2 (Fin 0) (Fin 3), Null, Arr2 (Fin 3) (Fin 5)]] \<rparr>)"
proof -
  let ?gs = "map snd (group_rows data by)"
  let ?new = "foldl (\<lambda>col entry. stack_entry rnd (js_sort cmp entry) (Fin 0) col) col ?gs"
  have perm: "\<And>xs. mset (js_sort cmp xs) = mset xs"
    using engine by (simp add: sort_contract_def)
  have res: "stack rnd js_sort data by orders =
       Inr \<lparr> t_length = t_length data,
             t_columns = (t_columns data)(axis_name (other_axis by) \<mapsto> ?new) \<rparr>"
    unfolding cmp_def using col by (rule stack_result)
  have part: "mset (concat (map snd (group_rows data by))) = mset [0..<t_length data]"
    by (rule group_rows_partition)
  have same: "\<forall>i < t_length data. \<forall>j < t_length data.
        same_group data by i j \<longleftrightarrow>
          (case t_columns data (axis_name by) of
             None \<Rightarrow> True
           | Some bycol \<Rightarrow> same_json_text (js_get bycol i) (js_get bycol j))"
    by (simp add: same_group_row_key row_key_eq)
  have plain: "\<forall>bycol. t_columns data (axis_name by) = Some bycol \<longrightarrow>
        (\<forall>i < t_length data. \<forall>j < t_length data.
           finite_or_no_number (js_get bycol i) \<and> finite_or_no_number (js_get bycol j) \<longrightarrow>
           (same_group data by i j \<longleftrightarrow> js_get bycol i = js_get bycol j))"
    by (simp add: same_group_row_key row_key_eq same_json_text_plain)
  have groups: "\<forall>key entry. (key, entry) \<in> set (group_rows data by) \<longrightarrow>
        sorted_wrt (<) entry \<and>
        mset (js_sort cmp entry) = mset entry \<and>
        ((\<forall>(k, f) \<in> set orders. \<forall>colump. t_columns data k = Some colump \<longrightarrow>
             consistent_on f (js_get colump ` set entry)) \<longrightarrow>
           ordered_by cmp (js_sort cmp entry)) \<and>
        (\<forall>p < length entry.
           js_get ?new (js_sort cmp entry ! p) = stacked_value rnd col (js_sort cmp entry) p)"
  proof (intro allI impI conjI)
    fix key entry assume mem: "(key, entry) \<in> set (group_rows data by)"
    show "sorted_wrt (<) entry" using mem by (rule group_rows_increasing)
    show "mset (js_sort cmp entry) = mset entry" by (rule perm)
    {
      assume c: "\<forall>(k, f) \<in> set orders. \<forall>colump. t_columns data k = Some colump \<longrightarrow>
             consistent_on f (js_get colump ` set entry)"
      have "consistent_on cmp (set entry)"
        unfolding cmp_def by (rule compare_rows_consistent) (use c in blast)
      then show "ordered_by cmp (js_sort cmp entry)"
        using engine by (simp add: sort_contract_def)
    }
    {
      fix p assume p: "p < length entry"
      have len: "length (js_sort cmp entry) = length entry"
        by (metis perm size_mset)
      have "entry \<in> set ?gs" using mem by force
      then show "js_get ?new (js_sort cmp entry ! p) = stacked_value rnd col (js_sort cmp entry) p"
        using group_rows_rows_distinct [of data "by"] p len
        by (intro stack_all_at [of "js_sort cmp", OF perm]) simp_all
    }
  qed
  have cmp: "\<forall>i j. cmp i j =
        (case find (\<lambda>r. r \<noteq> Fin 0) (order_results (t_columns data) orders i j) of
           Some r \<Rightarrow> r
         | None \<Rightarrow> Fin (real_of_int (int i - int j)))"
    unfolding cmp_def by (simp add: compare_rows_first_nonzero)
  have ex: "rnd 3 = Fin 3 \<and> rnd 5 = Fin 5 \<longrightarrow>
        stack rnd js_sort example_table AxisX [] =
          Inr \<lparr> t_length = 3,
                t_columns = [''x'' \<mapsto> [Str ''a'', Str ''a'', Str ''a''],
                             ''y'' \<mapsto> [Arr2 (Fin 0) (Fin 3), Null, Arr2 (Fin 3) (Fin 5)]] \<rparr>"
    using stack_example [OF engine] by blast
  show ?thesis
    using res part same plain groups cmp ex by blast
qed


text \<open>
  The theorem at the table with the groups a and b, the nominal order on the colour
  column, the insertion sort and exact sums: in group a the row coloured u comes first.
\<close>

theorem stack_orders_and_accumulates_witness:
  "t_columns colored_table (axis_name (other_axis AxisX)) =
     Some [Number (Fin 1), Number (Fin 2), Number (Fin 3), Number (Fin 4)] \<and>
   sort_contract sort_cmp \<and>
   consistent_on (nominal_order [''u'', ''v''] []) {Str ''u'', Str ''v''} \<and>
   (\<exists>newcol.
      stack exact_rounding sort_cmp colored_table AxisX color_orders =
        Inr \<lparr> t_length = 4, t_columns = (t_columns colored_table)(''y'' \<mapsto> newcol) \<rparr> \<and>
      js_get newcol 2 = Arr2 (Fin 0) (Fin 3) \<and>
      js_get newcol 0 = Arr2 (Fin 3) (Fin 4) \<and>
      js_get newcol 1 = Arr2 (Fin 0) (Fin 2) \<and>
      js_get newcol 3 = Arr2 (Fin 2) (Fin 6)) \<and>
   ordered_by (compare_rows (t_columns colored_table) color_orders) [2, 0] \<and>
   same_group colored_table AxisX 0 2 \<and>
   \<not> same_group colored_table AxisX 0 1"
proof -
  let ?col = "[Number (Fin 1), Number (Fin 2), Number (Fin 3), Number (Fin 4)]"
  let ?cmp = "compare_rows (t_columns colored_table) color_orders"
  let ?bycol = "[Str ''a'', Str ''b'', Str ''a'', Str ''b'']"
  have h: "t_columns colored_table (axis_name (other_axis AxisX)) = Some ?col"
    by (simp add: colored_table_def)
  have byc: "t_columns colored_table (axis_name AxisX) = Some ?bycol"
    by (simp add: colored_table_def)
  have cons: "consistent_on (nominal_order [''u'', ''v''] []) {Str ''u'', Str ''v''}"
    by (rule nominal_order_consistent) auto
  obtain newcol where
    res: "stack exact_rounding sort_cmp colored_table AxisX color_orders =
            Inr \<lparr> t_length = t_length colored_table,
                  t_columns = (t_columns colored_table)(axis_name (other_axis AxisX) \<mapsto> newcol) \<rparr>"
    and plain: "\<forall>bycol. t_columns colored_table (axis_name AxisX) = Some bycol \<longrightarrow>
        (\<forall>i < t_length colored_table. \<forall>j < t_length colored_table.
           finite_or_no_number (js_get bycol i) \<and> finite_or_no_number (js_get bycol j) \<longrightarrow>
           (same_group colored_table AxisX i j \<longleftrightarrow> js_get bycol i = js_get bycol j))"
    and groups: "\<forall>key entry. (key, entry) \<in> set (group_rows colored_table AxisX) \<longrightarrow>
        sorted_wrt (<) entry \<and>
        mset (sort_cmp ?cmp entry) = mset entry \<and>
        ((\<forall>(k, f) \<in> set color_orders. \<forall>colump. t_columns colored_table k = Some colump \<longrightarrow>
             consistent_on f (js_get colump ` set entry)) \<longrightarrow>
           ordered_by ?cmp (sort_cmp ?cmp entry)) \<and>
        (\<forall>p < length entry.
           js_get newcol (sort_cmp ?cmp entry ! p) =
             stacked_value exact_rounding ?col (sort_cmp ?cmp entry) p)"
    using stack_orders_and_accumulates [OF h sort_cmp_contract, of exact_rounding color_orders]
    by blast
  have memA: "(KString ''a'', [0, 2]) \<in> set (group_rows colored_table AxisX)"
    and memB: "(KString ''b'', [1, 3]) \<in> set (group_rows colored_table AxisX)"
    by (simp_all add: group_rows_colored)
  note GA = groups [rule_format, OF memA, unfolded sort_colored]
  note GB = groups [rule_format, OF memB, unfolded sort_colored]
  have valsA: "\<And>p. p < 2 \<Longrightarrow> js_get newcol ([2, 0] ! p) = stacked_value exact_rounding ?col [2, 0] p"
    using GA [THEN conjunct2, THEN conjunct2, THEN conjunct2] by simp
  have valsB: "\<And>p. p < 2 \<Longrightarrow> js_get newcol ([1, 3] ! p) = stacked_value exact_rounding ?col [1, 3] p"
    using GB [THEN conjunct2, THEN conjunct2, THEN conjunct2] by simp
  have consA: "\<forall>(k, f) \<in> set color_orders. \<forall>colump. t_columns colored_table k = Some colump \<longrightarrow>
             consistent_on f (js_get colump ` set [0, 2])"
  proof -
    have "js_get [Str ''v'', Str ''u'', Str ''u'', Str ''v''] ` set [0, 2] = {Str ''u'', Str ''v''}"
      by (auto simp: js_get_def)
    then show ?thesis using cons by (simp add: color_orders_def colored_table_def)
  qed
  have ord: "ordered_by ?cmp [2, 0]"
    using GA [THEN conjunct2, THEN conjunct2, THEN conjunct1] consA by (rule mp)
  have v2: "js_get newcol 2 = Arr2 (Fin 0) (Fin 3)"
    using valsA [of 0]
    by (simp add: stacked_value_def running_sum_def running_from_def js_get_def
          List.map_filter_simps exact_rounding_def)
  have v0: "js_get newcol 0 = Arr2 (Fin 3) (Fin 4)"
    using valsA [of 1]
    by (simp add: stacked_value_def running_sum_def running_from_def js_get_def
          List.map_filter_simps exact_rounding_def)
  have v1: "js_get newcol 1 = Arr2 (Fin 0) (Fin 2)"
    using valsB [of 0]
    by (simp add: stacked_value_def running_sum_def running_from_def js_get_def
          List.map_filter_simps exact_rounding_def)
  have v3: "js_get newcol 3 = Arr2 (Fin 2) (Fin 6)"
    using valsB [of 1]
    by (simp add: stacked_value_def running_sum_def running_from_def js_get_def
          List.map_filter_simps exact_rounding_def)
  have len: "t_length colored_table = 4" by (simp add: colored_table_def)
  have sg: "same_group colored_table AxisX 0 2"
    using plain [rule_format, OF byc, of 0 2] by (simp add: len js_get_def)
  have nsg: "\<not> same_group colored_table AxisX 0 1"
    using plain [rule_format, OF byc, of 0 1] by (simp add: len js_get_def)
  have res': "stack exact_rounding sort_cmp colored_table AxisX color_orders =
        Inr \<lparr> t_length = 4, t_columns = (t_columns colored_table)(''y'' \<mapsto> newcol) \<rparr>"
    using res by (simp add: len)
  show ?thesis
    using h sort_cmp_contract cons res' v2 v0 v1 v3 ord sg nsg
    by (intro conjI exI [of _ newcol])
qed


text \<open>
  The claim as it was stated groups the rows that share the value of the opposing
  axis. Two rows whose values there are the different numbers Infinity and -Infinity
  are one group all the same, both printing as \<^verbatim>\<open>null\<close>: the second row's interval
  starts at 1, not at 0.
\<close>

theorem stack_groups_infinities_together:
  "t_columns infinities_table (axis_name AxisX) = Some [Number PosInf, Number NegInf] \<and>
   Number PosInf \<noteq> Number NegInf \<and>
   same_group infinities_table AxisX 0 1 \<and>
   stack exact_rounding sort_cmp infinities_table AxisX [] =
     Inr \<lparr> t_length = 2,
           t_columns = [''x'' \<mapsto> [Number PosInf, Number NegInf],
                        ''y'' \<mapsto> [Arr2 (Fin 0) (Fin 1), Arr2 (Fin 1) (Fin 3)]] \<rparr>"
proof -
  have c: "t_columns infinities_table (axis_name (other_axis AxisX)) =
             Some [Number (Fin 1), Number (Fin 2)]"
    by (simp add: infinities_table_def)
  have s: "sort_cmp (compare_rows (t_columns infinities_table) []) [0, 1] = [0, 1]"
    by (simp add: sort_cmp_def cmp_gt_def)
  have e: "stack_entry exact_rounding [0, 1] (Fin 0) [Number (Fin 1), Number (Fin 2)] =
             [Arr2 (Fin 0) (Fin 1), Arr2 (Fin 1) (Fin 3)]"
    by (simp add: js_get_def js_put_def exact_rounding_def Let_def)
  have st: "stack exact_rounding sort_cmp infinities_table AxisX [] =
     Inr \<lparr> t_length = 2,
           t_columns = [''x'' \<mapsto> [Number PosInf, Number NegInf],
                        ''y'' \<mapsto> [Arr2 (Fin 0) (Fin 1), Arr2 (Fin 1) (Fin 3)]] \<rparr>"
    unfolding stack_result [OF c] group_rows_infinities list.map snd_conv foldl.simps s e
    by (simp add: infinities_table_def)
  have sg: "same_group infinities_table AxisX 0 1"
    by (simp add: same_group_def group_rows_infinities)
  have x: "t_columns infinities_table (axis_name AxisX) = Some [Number PosInf, Number NegInf]"
    by (simp add: infinities_table_def)
  show ?thesis using x sg st by simp
qed


text \<open>Every engine that keeps the promise and adds 0 + 1 and 1 + 2 exactly gives that table.\<close>

lemma stack_infinities_any_engine:
  assumes "sort_contract js_sort" and "rnd 1 = Fin 1" and "rnd 3 = Fin 3"
  shows "stack rnd js_sort infinities_table AxisX [] =
     Inr \<lparr> t_length = 2,
           t_columns = [''x'' \<mapsto> [Number PosInf, Number NegInf],
                        ''y'' \<mapsto> [Arr2 (Fin 0) (Fin 1), Arr2 (Fin 1) (Fin 3)]] \<rparr>"
proof -
  have c: "t_columns infinities_table (axis_name (other_axis AxisX)) =
             Some [Number (Fin 1), Number (Fin 2)]"
    by (simp add: infinities_table_def)
  have s: "js_sort (compare_rows (t_columns infinities_table) []) [0, 1] = [0, 1]"
    using assms(1) by (rule index_order_sorted) simp
  have e: "stack_entry rnd [0, 1] (Fin 0) [Number (Fin 1), Number (Fin 2)] =
             [Arr2 (Fin 0) (Fin 1), Arr2 (Fin 1) (Fin 3)]"
    by (simp add: js_get_def js_put_def assms(2,3) Let_def)
  show ?thesis
    unfolding stack_result [OF c] group_rows_infinities list.map snd_conv foldl.simps s e
    by (simp add: infinities_table_def)
qed



subsection \<open>The frame of stacking\<close>

text \<open>
  When the table has a column for the stacked field, \<open>stack\<close> returns a table of the
  same length whose other columns, the grouping column included, are the input's.
\<close>

lemma stack_frame:
  assumes "t_columns data (axis_name (other_axis by)) = Some col"
  shows "\<exists>t. stack rnd js_sort data by orders = Inr t \<and> t_length t = t_length data \<and>
             (\<forall>name. name \<noteq> axis_name (other_axis by) \<longrightarrow> t_columns t name = t_columns data name)"
  using assms by (simp add: stack_def Let_def)

lemma stack_throws_without_column:
  "t_columns data (axis_name (other_axis by)) = None \<Longrightarrow>
   stack rnd js_sort data by orders = Inl TypeError"
  by (simp add: stack_def Let_def)


text \<open>
  Claim C10, on the code. A bar layer that encodes only \<open>x\<close> gives a table without a
  \<open>y\<close> column; stacking it throws a TypeError and returns no table, whatever the
  orders, where the claim promises a table of the same length with the other columns
  unchanged.
\<close>

theorem stack_without_stacked_column:
  "stack rnd js_sort table_without_y AxisX orders = Inl TypeError"
  by (simp add: stack_def table_without_y_def)
section \<open>Aggregate inference\<close>

lemma foldl_counts: "foldl (\<lambda>a b. a + snd b) (s::nat) xs = s + sum_list (map snd xs)"
  by (induction xs arbitrary: s) auto

lemma clip_levels_numOtherLevels:
  "length (n_levels n) > binCount \<Longrightarrow>
   cl_numOtherLevels (clip_levels n binCount) = (length (n_levels n) + n_numOtherLevels n) - binCount"
  by (simp add: clip_levels_def)

lemma clip_levels_otherCount:
  "length (n_levels n) > binCount \<Longrightarrow>
   cl_otherCount (clip_levels n binCount) = sum_list (map snd (drop binCount (n_levels n)))"
  by (simp add: clip_levels_def foldl_counts)

lemma otherRepr_not_nullRepr: "otherRepr env k \<noteq> nullRepr"
proof
  assume "otherRepr env k = nullRepr"
  then have "length (otherRepr env k) = length nullRepr" by simp
  then show False by (simp add: otherRepr_def nullRepr_def)
qed

lemma nominal_specialValues_iff:
  "(otherRepr env (cl_numOtherLevels cl) \<in> set (nominal_specialValues env cl nullCount) \<longleftrightarrow> cl_otherCount cl > 0) \<and>
   (nullRepr \<in> set (nominal_specialValues env cl nullCount) \<longleftrightarrow> nullCount > 0)"
  using otherRepr_not_nullRepr [of env "cl_numOtherLevels cl"]
  by (auto simp: nominal_specialValues_def)

lemma length_thousand_levels: "length thousand_levels = 1000"
  by (simp add: thousand_levels_def)

lemma counts_thousand_levels: "map snd (drop k thousand_levels) = replicate (1000 - k) 1"
  by (simp add: thousand_levels_def drop_map comp_def map_replicate_const)

text \<open>
  Claim C3, on the code. With more levels than bins the clipping adds the clipped
  levels to \<open>numOtherLevels\<close> but overwrites \<open>otherCount\<close> with the counts of the
  clipped levels only: for 1000 levels of one row each, 5 further levels with 5 rows
  and 10 bins, the label counts 995 other levels, the excluded levels hold 995 rows,
  and \<open>otherCount\<close> is 990.
\<close>

theorem clip_levels_drops_rows_beyond_top_levels:
  "length (n_levels many_levels_stats) = 1000 \<and>
   cl_numOtherLevels (clip_levels many_levels_stats 10) = 995 \<and>
   cl_otherCount (clip_levels many_levels_stats 10) = 990 \<and>
   sum_list (map snd (drop 10 (n_levels many_levels_stats))) + n_otherCount many_levels_stats = 995"
  by (simp add: clip_levels_def many_levels_stats_def length_thousand_levels foldl_counts
        counts_thousand_levels sum_list_replicate)

lemma hasNA_iff:
  "''n/a'' \<in> set (nullish (c_specialValues (a_scale (inferAggregate_quantitative field q binning))) []) \<longleftrightarrow>
     q_countNonFinite q > 0 \<or> (b_type binning = Log \<and> q_min q < 0)"
  by (simp add: inferAggregate_quantitative_def Let_def hasNA_def nullish_def)

text \<open>
  Claim C4, on the code. On a log scale a column whose smallest finite value is zero
  has a non-positive value, which the select expression sends to the null bin, yet
  \<open>n/a\<close> is not among the special values: the test is \<open>min < 0\<close>.
\<close>

theorem log_scale_zero_minimum_not_listed:
  "q_min zero_min_stats \<le> 0 \<and>
   c_specialValues (a_scale (the (inferAggregate
      (env \<lparr> env_inferBinning := \<lambda>q s k. binning \<lparr> b_type := Log \<rparr> \<rparr>)
      \<lparr> f_field = SqlColumn ''v'', f_quantitative = Some zero_min_stats, f_nominal = None \<rparr>
      (Some Log) None))) = Some []"
  by (simp add: inferAggregate_def inferAggregate_quantitative_def Let_def hasNA_def zero_min_stats_def)

lemma decimal_1: "decimal (Suc 0) = ''1''"
  by (simp add: decimal.simps)

lemma decimal_995: "decimal 995 = ''995''"
  by (simp add: decimal.simps)

lemma scenario_special_values:
  "c_specialValues (a_scale (inferAggregate_nominal example_env (SqlColumn ''c'') scenario_stats 2)) =
     Some [''(1 others)'', ''(null)'']"
  by (simp add: inferAggregate_nominal_def Let_def nominal_specialValues_def clip_levels_def
        scenario_stats_def otherRepr_def nullRepr_def example_env_def decimal_1)


section \<open>The encoding resolver\<close>

lemma buildEncoding_missing_field:
  assumes "name \<in> set field_aggregates"
  shows "buildEncoding ctx channel ((aggregate_only (AggName name)) \<lparr> e_quantile := q, e_normalize := nz \<rparr>) g =
           Inr ([RequiresField (AggName name)], None)"
  using assms
  by (auto simp: field_aggregates_def buildEncoding_def buildAggregate_def aggregate_only_def
        lookup_numericalAggregates_def numericalAggregates_def)

lemma buildEncoding_unknown_name:
  assumes "name \<notin> set known_aggregates" and "name \<notin> set Object_prototype_properties"
  shows "buildEncoding ctx channel (enc \<lparr> e_aggregate := Some (AggName name) \<rparr>) g =
           Inr ([UnknownAggregate (AggName name)], None)"
proof -
  have a: "map_of numericalAggregates name = None"
    using assms(1) by (simp add: known_aggregates_def map_of_eq_None_iff)
  have b: "name \<noteq> ''count''" "name \<noteq> ''ecdf-value''" "name \<noteq> ''ecdf-rank''"
    using assms(1) by (auto simp: known_aggregates_def)
  show ?thesis
    using a b assms(2) by (simp add: buildEncoding_def buildAggregate_def lookup_numericalAggregates_def)
qed

lemma buildEncoding_count_without_field:
  "\<exists>r. buildEncoding ctx channel (aggregate_only (AggName ''count'')) g = Inr ([], Some r) \<and>
       r_select r = Some SqlCount"
  by (simp add: buildEncoding_def buildAggregate_def aggregate_only_def no_result_def)

lemma buildEncoding_ecdf_rank_without_field:
  "\<exists>r. buildEncoding ctx channel (aggregate_only (AggName ''ecdf-rank'')) g = Inr ([], Some r) \<and>
       r_select r = Some (SqlUnnest quantilesExpr)"
  by (simp add: buildEncoding_def buildAggregate_def aggregate_only_def no_result_def)

text \<open>
  Claim C9, on the code. An aggregate name that the resolver does not know but that
  names a property inherited from \<open>Object.prototype\<close>, given with a field, makes
  \<open>buildEncoding\<close> throw instead of logging a warning and returning undefined.
\<close>

theorem buildEncoding_inherited_name_throws:
  "''toString'' \<notin> set known_aggregates \<and>
   buildEncoding ctx channel (aggregate_of_field (AggName ''toString'') (FieldName ''a'')) g = Inl TypeError"
  by (simp add: buildEncoding_def buildAggregate_def aggregate_of_field_def aggregate_only_def
        lookup_numericalAggregates_def numericalAggregates_def Object_prototype_properties_def
        known_aggregates_def)

section \<open>The count plot's selection\<close>

lemma nominal_predicate_empty:
  "a_predicate (inferAggregate_nominal env field n binCount) (JArr []) = Some (SqlOr [])"
  by (simp add: inferAggregate_nominal_def Let_def nominal_predicate_def)

lemma quantitative_predicate_empty:
  "a_predicate (inferAggregate_quantitative field q binning) (JArr []) = Some (SqlOr [])"
  by (simp add: inferAggregate_quantitative_def Let_def)

text \<open>
  The clause written for the empty selection has the empty array as its value and, for
  a nominal as for a quantitative aggregate, the empty disjunction \<^verbatim>\<open>SQL.or()\<close> as
  its predicate; an undefined selection gives the clause with value and predicate null.
\<close>

lemma empty_selection_clause:
  "toggleSelection (Some [v]) v True = Some [] \<and>
   selection_clause src client (inferAggregate_nominal env field n binCount) (Some []) =
     \<lparr> source = src, clients = [client], clause_value = Some (JArr []), predicate = Some (SqlOr []) \<rparr> \<and>
   selection_clause src client (inferAggregate_quantitative field q binning) (Some []) =
     \<lparr> source = src, clients = [client], clause_value = Some (JArr []), predicate = Some (SqlOr []) \<rparr> \<and>
   selection_clause src client info None =
     \<lparr> source = src, clients = [client], clause_value = None, predicate = None \<rparr>"
  by (simp add: toggleSelection_def isSame_def selection_clause_def nominal_predicate_empty
        quantitative_predicate_empty)

text \<open>
  Claim C6, on the code. On the column of scenario 2 with the selection a: the
  shift-click on a leaves the empty selection, and the clause then written has the
  empty disjunction as its predicate, not null. The click without shift on the same
  value leaves no selection, and the clause then written has the predicate null.
\<close>

theorem shift_click_leaves_empty_disjunction:
  "toggleSelection (Some [JStr ''a'']) (JStr ''a'') True = Some [] \<and>
   predicate (selection_clause 0 1
       (inferAggregate_nominal example_env (SqlColumn ''c'') scenario_stats 2)
       (toggleSelection (Some [JStr ''a'']) (JStr ''a'') True)) = Some (SqlOr []) \<and>
   toggleSelection (Some [JStr ''a'']) (JStr ''a'') False = None \<and>
   predicate (selection_clause 0 1
       (inferAggregate_nominal example_env (SqlColumn ''c'') scenario_stats 2)
       (toggleSelection (Some [JStr ''a'']) (JStr ''a'') False)) = None"
  by (simp add: toggleSelection_def isSame_def selection_clause_def nominal_predicate_empty)
section \<open>The chart runtime: clauses and cleanup\<close>

subsection \<open>The subscriber's loop\<close>

lemma sync_clauses_sources:
  "sync_clauses src cls st sels cur = (cur', ws) \<Longrightarrow> w \<in> set ws \<Longrightarrow>
   \<exists>s \<in> set sels. w = written_clause src cls s (selection_value st s)"
proof (induction sels arbitrary: cur cur' ws)
  case Nil
  then show ?case by simp
next
  case (Cons s rest)
  show ?case
  proof (cases "cur = Some (sel_id s, selection_value st s)")
    case True
    then show ?thesis using Cons by (auto simp: Let_def)
  next
    case False
    obtain c1 w1 where r: "sync_clauses src cls st rest (Some (sel_id s, selection_value st s)) = (c1, w1)"
      by (cases "sync_clauses src cls st rest (Some (sel_id s, selection_value st s))")
    then have ws: "ws = written_clause src cls s (selection_value st s) # w1"
      using Cons.prems(1) False by (simp add: Let_def)
    show ?thesis
    proof (cases "w = written_clause src cls s (selection_value st s)")
      case True
      then show ?thesis by auto
    next
      case False
      then have "w \<in> set w1" using Cons.prems(2) ws by simp
      then show ?thesis using Cons.IH [OF r] by auto
    qed
  qed
qed

lemma sync_clauses_empty_state:
  assumes "sync_clauses src cls None sels cur = (cur', ws)" and "w \<in> set ws"
  shows "w = clearing src cls"
  using sync_clauses_sources [OF assms]
  by (auto simp: written_clause_def selection_value_def)

lemma sync_clauses_no_writes:
  "sync_clauses src cls st sels cur = (cur', []) \<Longrightarrow> cur' = cur"
proof (induction sels arbitrary: cur)
  case Nil
  then show ?case by simp
next
  case (Cons s rest)
  then show ?case
    by (cases "cur = Some (sel_id s, selection_value st s)") (auto simp: Let_def split: prod.splits)
qed

text \<open>Once the current clause belongs to a selection not in the list, all of the list is written.\<close>

lemma sync_clauses_foreign:
  assumes "i \<notin> sel_id ` set sels" and "distinct (map sel_id sels)" and "sels \<noteq> []"
    and "sync_clauses src cls st sels (Some (i, v)) = (cur', ws)"
  shows "ws \<noteq> [] \<and> last ws = written_clause src cls (last sels) (selection_value st (last sels)) \<and>
         cur' = Some (sel_id (last sels), selection_value st (last sels))"
  using assms
proof (induction sels arbitrary: i v cur' ws)
  case Nil
  then show ?case by simp
next
  case (Cons s rest)
  have ne: "i \<noteq> sel_id s"
    using Cons.prems(1) by auto
  obtain c1 w1 where r: "sync_clauses src cls st rest (Some (sel_id s, selection_value st s)) = (c1, w1)"
    by (cases "sync_clauses src cls st rest (Some (sel_id s, selection_value st s))")
  have ws: "ws = written_clause src cls s (selection_value st s) # w1" and c: "cur' = c1"
    using Cons.prems(4) ne r by (simp_all add: Let_def)
  show ?case
  proof (cases "rest = []")
    case True
    then show ?thesis using ws c r by simp
  next
    case False
    have "sel_id s \<notin> sel_id ` set rest" "distinct (map sel_id rest)"
      using Cons.prems(2) by auto
    from Cons.IH [OF this False r] show ?thesis using ws c False by simp
  qed
qed

lemma sync_clauses_last:
  assumes "distinct (map sel_id sels)" and "sync_clauses src cls st sels cur = (cur', ws)"
    and "ws \<noteq> []"
  shows "sels \<noteq> [] \<and> last ws = written_clause src cls (last sels) (selection_value st (last sels)) \<and>
         cur' = Some (sel_id (last sels), selection_value st (last sels))"
proof (cases sels)
  case Nil
  then show ?thesis using assms by simp
next
  case (Cons s rest)
  let ?v = "selection_value st s"
  have d: "sel_id s \<notin> sel_id ` set rest" "distinct (map sel_id rest)"
    using assms(1) Cons by auto
  show ?thesis
  proof (cases "cur = Some (sel_id s, ?v)")
    case True
    then have r: "sync_clauses src cls st rest (Some (sel_id s, ?v)) = (cur', ws)"
      using assms(2) Cons by (simp add: Let_def)
    have "rest \<noteq> []" using r assms(3) by (cases rest) auto
    from sync_clauses_foreign [OF d this r] show ?thesis using Cons \<open>rest \<noteq> []\<close> by simp
  next
    case False
    obtain c1 w1 where r: "sync_clauses src cls st rest (Some (sel_id s, ?v)) = (c1, w1)"
      by (cases "sync_clauses src cls st rest (Some (sel_id s, ?v))")
    have ws: "ws = written_clause src cls s ?v # w1" and c: "cur' = c1"
      using assms(2) Cons False r by (simp_all add: Let_def)
    show ?thesis
    proof (cases "rest = []")
      case True
      then show ?thesis using ws c r Cons by simp
    next
      case False
      from sync_clauses_foreign [OF d False r] show ?thesis using ws c Cons False by simp
    qed
  qed
qed

text \<open>No write happens only without selections, or for a single selection that is current.\<close>

lemma sync_clauses_silent:
  assumes "distinct (map sel_id sels)" and "sync_clauses src cls st sels cur = (cur', [])"
  shows "sels = [] \<or> (\<exists>s. sels = [s] \<and> cur = Some (sel_id s, selection_value st s))"
proof (cases sels)
  case Nil
  then show ?thesis by simp
next
  case (Cons s rest)
  let ?v = "selection_value st s"
  have d: "sel_id s \<notin> sel_id ` set rest" "distinct (map sel_id rest)"
    using assms(1) Cons by auto
  have cur: "cur = Some (sel_id s, ?v)"
    using assms(2) Cons by (cases "cur = Some (sel_id s, ?v)") (auto simp: Let_def split: prod.splits)
  then have r: "sync_clauses src cls st rest (Some (sel_id s, ?v)) = (cur', [])"
    using assms(2) Cons by (simp add: Let_def)
  have "rest = []"
  proof (rule ccontr)
    assume "rest \<noteq> []"
    from sync_clauses_foreign [OF d this r] show False by simp
  qed
  then show ?thesis using Cons cur by simp
qed

subsection \<open>Writes to the filter\<close>

lemma holds_clause_iff: "holds_clause src f \<longleftrightarrow> (\<exists>c \<in> set f. source c = src)"
  by (auto simp: holds_clause_def find_None_iff)

lemma holds_clause_filter_update:
  "source w = src \<Longrightarrow> holds_clause src (filter_update w f) \<longleftrightarrow> predicate w \<noteq> None"
  by (auto simp: holds_clause_iff filter_update_def)

lemma others_filter_update:
  "source w = src \<Longrightarrow>
   filter (\<lambda>c. source c \<noteq> src) (filter_update w f) = filter (\<lambda>c. source c \<noteq> src) f"
  by (auto simp: filter_update_def intro: filter_cong)

lemma holds_clause_writes:
  assumes "\<And>w. w \<in> set ws \<Longrightarrow> source w = src"
  shows "holds_clause src (foldl (\<lambda>f c. filter_update c f) f ws) \<longleftrightarrow>
           (if ws = [] then holds_clause src f else predicate (last ws) \<noteq> None)"
  using assms
proof (induction ws rule: rev_induct)
  case Nil
  then show ?case by simp
next
  case (snoc w ws)
  then show ?case by (simp add: holds_clause_filter_update)
qed

lemma others_writes:
  assumes "\<And>w. w \<in> set ws \<Longrightarrow> source w = src"
  shows "filter (\<lambda>c. source c \<noteq> src) (foldl (\<lambda>f c. filter_update c f) f ws) =
           filter (\<lambda>c. source c \<noteq> src) f"
  using assms
proof (induction ws rule: rev_induct)
  case Nil
  then show ?case by simp
next
  case (snoc w ws)
  then show ?case by (simp add: others_filter_update)
qed

lemma written_clause_source [simp]: "source (written_clause src cls s v) = src"
  by (simp add: written_clause_def clearing_def split: option.splits)

lemma written_clause_predicate [simp]: "predicate (written_clause src cls s v) = None \<longleftrightarrow> v = None"
  by (simp add: written_clause_def clearing_def split: option.splits)

lemma sync_clauses_source:
  "sync_clauses src cls st sels cur = (cur', ws) \<Longrightarrow> w \<in> set ws \<Longrightarrow> source w = src"
  by (auto dest: sync_clauses_sources)

subsection \<open>A single subscription\<close>

lemma single_subscription:
  assumes "map sub_id subs = [call]" and "map sub_clients subs = [cls]"
  obtains cur where "subs = [\<lparr> sub_id = call, sub_clients = cls, sub_currentClause = cur \<rparr>]"
proof -
  obtain sub where s: "subs = [sub]" using assms(1) by (cases subs) auto
  then have "sub = \<lparr> sub_id = call, sub_clients = cls, sub_currentClause = sub_currentClause sub \<rparr>"
    using assms by simp
  then show ?thesis using s that by metis
qed

lemma notify_single:
  assumes "rt_subs rt = [\<lparr> sub_id = call, sub_clients = cls, sub_currentClause = cur \<rparr>]"
    and "sync_clauses (rt_source rt) cls (rt_state rt) (nullish (rt_selections rt) []) cur = (cur', ws)"
  shows "notify rt =
           rt \<lparr> rt_subs := [\<lparr> sub_id = call, sub_clients = cls, sub_currentClause = cur' \<rparr>],
                rt_filter := foldl (\<lambda>f c. filter_update c f) (rt_filter rt) ws,
                rt_trace := rt_trace rt @ map FilterUpdate ws \<rparr>"
  using assms by (simp add: notify_def write_clauses_def)

subsection \<open>Cleanup\<close>

lemma cleanup_in_sync:
  assumes sync: "in_sync rt call cls"
  obtains ws cur' where
    "cleanup rt =
       rt \<lparr> rt_spec := None, rt_cleanupFn := None, rt_state := None, rt_subs := [],
            rt_filter := foldl (\<lambda>f c. filter_update c f) (rt_filter rt) ws,
            rt_trace := rt_trace rt @ [SourceReset] @ map FilterUpdate ws @ [Unsubscribe call] @
                        map ClientDestroy cls \<rparr>"
    and "\<And>w. w \<in> set ws \<Longrightarrow> w = clearing (rt_source rt) cls"
    and "holds_clause (rt_source rt) (rt_filter rt) \<Longrightarrow> ws \<noteq> []"
proof -
  let ?sels = "nullish (rt_selections rt) []"
  have fn: "rt_cleanupFn rt = Some (call, cls)" using sync by (simp add: in_sync_def)
  have ids: "map sub_id (rt_subs rt) = [call]" and cs: "map sub_clients (rt_subs rt) = [cls]"
    using sync by (simp_all add: in_sync_def)
  obtain cur where subs: "rt_subs rt = [\<lparr> sub_id = call, sub_clients = cls, sub_currentClause = cur \<rparr>]"
    using single_subscription [OF ids cs] .
  have dist: "distinct (map sel_id ?sels)" using sync by (simp add: in_sync_def)
  show ?thesis
  proof (cases "rt_state rt")
    case None
    have nh: "\<not> holds_clause (rt_source rt) (rt_filter rt)"
      using sync None by (auto simp: in_sync_def split: if_splits)
    have "cleanup rt =
       rt \<lparr> rt_spec := None, rt_cleanupFn := None, rt_state := None, rt_subs := [],
            rt_filter := foldl (\<lambda>f c. filter_update c f) (rt_filter rt) [],
            rt_trace := rt_trace rt @ [SourceReset] @ map FilterUpdate [] @ [Unsubscribe call] @
                        map ClientDestroy cls \<rparr>"
      using fn subs None
      by (simp add: cleanup_def run_cleanupFn_def state_set_def log_events_def Let_def)
    then show ?thesis using nh that [of "[]"] by simp
  next
    case (Some m)
    obtain cur' ws where sc: "sync_clauses (rt_source rt) cls None ?sels cur = (cur', ws)"
      by (cases "sync_clauses (rt_source rt) cls None ?sels cur")
    let ?rt1 = "rt \<lparr> rt_trace := rt_trace rt @ [SourceReset], rt_state := None \<rparr>"
    have n: "notify ?rt1 =
           ?rt1 \<lparr> rt_subs := [\<lparr> sub_id = call, sub_clients = cls, sub_currentClause = cur' \<rparr>],
                  rt_filter := foldl (\<lambda>f c. filter_update c f) (rt_filter ?rt1) ws,
                  rt_trace := rt_trace ?rt1 @ map FilterUpdate ws \<rparr>"
      by (rule notify_single [where cur = cur]) (use subs sc in simp_all)
    have ss: "state_set None (rt \<lparr> rt_trace := rt_trace rt @ [SourceReset] \<rparr>) = notify ?rt1"
      using Some by (simp add: state_set_def)
    have eq: "cleanup rt =
       rt \<lparr> rt_spec := None, rt_cleanupFn := None, rt_state := None, rt_subs := [],
            rt_filter := foldl (\<lambda>f c. filter_update c f) (rt_filter rt) ws,
            rt_trace := rt_trace rt @ [SourceReset] @ map FilterUpdate ws @ [Unsubscribe call] @
                        map ClientDestroy cls \<rparr>"
      using fn by (simp add: cleanup_def run_cleanupFn_def log_events_def Let_def ss n)
    have clr: "\<And>w. w \<in> set ws \<Longrightarrow> w = clearing (rt_source rt) cls"
      using sc by (rule sync_clauses_empty_state)
    have ne: "ws \<noteq> []" if h: "holds_clause (rt_source rt) (rt_filter rt)"
    proof
      assume "ws = []"
      then have "?sels = [] \<or> (\<exists>s. ?sels = [s] \<and> cur = Some (sel_id s, selection_value None s))"
        using sync_clauses_silent [OF dist] sc by blast
      then show False
        using sync h subs by (auto simp: in_sync_def selection_value_def split: if_splits)
    qed
    show ?thesis using that [OF eq clr ne] .
  qed
qed

text \<open>
  The cleanup of a built chart whose one subscription is in step with the filter: it
  resets the source and empties the state; the subscriber then writes clearing clauses
  and nothing else, at least one if the filter holds a clause of this source; then the
  subscription is removed and the clients are destroyed.
\<close>

lemma cleanup_of_built_chart:
  assumes "in_sync rt call cls"
  shows "\<exists>ws.
     rt_trace (cleanup rt) =
       rt_trace rt @ [SourceReset] @ map FilterUpdate ws @ [Unsubscribe call] @ map ClientDestroy cls \<and>
     set ws \<subseteq> {clearing (rt_source rt) cls} \<and>
     (holds_clause (rt_source rt) (rt_filter rt) \<longrightarrow> ws \<noteq> []) \<and>
     \<not> holds_clause (rt_source rt) (rt_filter (cleanup rt)) \<and>
     filter (\<lambda>c. source c \<noteq> rt_source rt) (rt_filter (cleanup rt)) =
       filter (\<lambda>c. source c \<noteq> rt_source rt) (rt_filter rt) \<and>
     idle (cleanup rt) \<and>
     (\<not> deepEquals_spec spec (rt_spec rt) \<longrightarrow>
        rt_trace (setSpec_begin spec rt) = rt_trace (cleanup rt) \<and>
        rt_filter (setSpec_begin spec rt) = rt_filter (cleanup rt)) \<and>
     rt_trace (destroy rt) = rt_trace (cleanup rt) @ [ClearOutputs] \<and>
     rt_filter (destroy rt) = rt_filter (cleanup rt)"
proof -
  obtain ws cur' where
    eq: "cleanup rt =
       rt \<lparr> rt_spec := None, rt_cleanupFn := None, rt_state := None, rt_subs := [],
            rt_filter := foldl (\<lambda>f c. filter_update c f) (rt_filter rt) ws,
            rt_trace := rt_trace rt @ [SourceReset] @ map FilterUpdate ws @ [Unsubscribe call] @
                        map ClientDestroy cls \<rparr>"
    and clr: "\<And>w. w \<in> set ws \<Longrightarrow> w = clearing (rt_source rt) cls"
    and ne: "holds_clause (rt_source rt) (rt_filter rt) \<Longrightarrow> ws \<noteq> []"
    using cleanup_in_sync [OF assms] by metis
  have src: "\<And>w. w \<in> set ws \<Longrightarrow> source w = rt_source rt"
  proof -
    fix w assume "w \<in> set ws"
    then have "w = clearing (rt_source rt) cls" by (rule clr)
    then show "source w = rt_source rt" by (simp add: clearing_def)
  qed
  have h: "holds_clause (rt_source rt) (foldl (\<lambda>f c. filter_update c f) (rt_filter rt) ws) \<longleftrightarrow>
             (if ws = [] then holds_clause (rt_source rt) (rt_filter rt) else predicate (last ws) \<noteq> None)"
    using src by (rule holds_clause_writes)
  have last: "ws \<noteq> [] \<Longrightarrow> predicate (last ws) = None"
    using clr [of "last ws"] by (simp add: clearing_def)
  have nh: "\<not> holds_clause (rt_source rt) (rt_filter (cleanup rt))"
    using h ne last by (auto simp: eq)
  have oth: "filter (\<lambda>c. source c \<noteq> rt_source rt) (rt_filter (cleanup rt)) =
       filter (\<lambda>c. source c \<noteq> rt_source rt) (rt_filter rt)"
    using others_writes [OF src] by (simp add: eq)
  have idl: "idle (cleanup rt)"
    using nh by (simp add: idle_def eq)
  have tr: "rt_trace (cleanup rt) =
       rt_trace rt @ [SourceReset] @ map FilterUpdate ws @ [Unsubscribe call] @ map ClientDestroy cls"
    by (simp add: eq)
  have sub: "set ws \<subseteq> {clearing (rt_source rt) cls}"
    using clr by auto
  have bg: "\<not> deepEquals_spec spec (rt_spec rt) \<longrightarrow>
        rt_trace (setSpec_begin spec rt) = rt_trace (cleanup rt) \<and>
        rt_filter (setSpec_begin spec rt) = rt_filter (cleanup rt)"
    by (simp add: setSpec_begin_def Let_def)
  have st: "rt_state (cleanup rt) = None" and sb: "rt_subs (cleanup rt) = []"
    by (simp_all add: eq)
  have d: "destroy rt =
             (cleanup rt) \<lparr> rt_outputs := None, rt_trace := rt_trace (cleanup rt) @ [ClearOutputs],
                            rt_selections := None \<rparr>"
    using st sb
    by (cases "rt_selections (cleanup rt)")
       (simp_all add: destroy_def Let_def state_set_def selections_set_def log_events_def
          notify_def write_clauses_def)
  have dtr: "rt_trace (destroy rt) = rt_trace (cleanup rt) @ [ClearOutputs]"
    and dfl: "rt_filter (destroy rt) = rt_filter (cleanup rt)"
    by (simp_all add: d)
  show ?thesis
    using tr sub ne nh oth idl bg dtr dfl by blast
qed

subsection \<open>How a runtime gets and stays in step with the filter\<close>

lemma selection_value_Some: "selection_value st s \<noteq> None \<Longrightarrow> st \<noteq> None"
  by (cases st) (simp_all add: selection_value_def)

lemma sync_clauses_keeps_sync:
  assumes dist: "distinct (map sel_id sels)"
    and sc: "sync_clauses src cls st sels cur = (cur', ws)"
    and pre: "holds_clause src f \<Longrightarrow>
                sels \<noteq> [] \<and> (length sels = 1 \<longrightarrow> cur \<noteq> Some (sel_id (hd sels), None))"
    and h: "holds_clause src (foldl (\<lambda>f c. filter_update c f) f ws)"
  shows "st \<noteq> None \<and> sels \<noteq> [] \<and> (length sels = 1 \<longrightarrow> cur' \<noteq> Some (sel_id (hd sels), None))"
proof -
  have src: "\<And>w. w \<in> set ws \<Longrightarrow> source w = src"
    using sc by (rule sync_clauses_source)
  have hw: "holds_clause src (foldl (\<lambda>f c. filter_update c f) f ws) \<longleftrightarrow>
             (if ws = [] then holds_clause src f else predicate (last ws) \<noteq> None)"
    using src by (rule holds_clause_writes)
  show ?thesis
  proof (cases "ws = []")
    case True
    then have hf: "holds_clause src f" using h hw by simp
    have c: "cur' = cur" using sc True by (auto dest: sync_clauses_no_writes)
    have "sels = [] \<or> (\<exists>s. sels = [s] \<and> cur = Some (sel_id s, selection_value st s))"
      using sync_clauses_silent [OF dist] sc True by blast
    then obtain s where s: "sels = [s]" "cur = Some (sel_id s, selection_value st s)"
      using pre [OF hf] by auto
    then have sv: "selection_value st s \<noteq> None" using pre [OF hf] by auto
    have "st \<noteq> None" using sv by (rule selection_value_Some)
    moreover have "cur' \<noteq> Some (sel_id s, None)" using sv s c by auto
    ultimately show ?thesis using s by simp
  next
    case False
    then have p: "predicate (last ws) \<noteq> None" using h hw by simp
    have l: "sels \<noteq> []"
      "last ws = written_clause src cls (last sels) (selection_value st (last sels))"
      "cur' = Some (sel_id (last sels), selection_value st (last sels))"
      using sync_clauses_last [OF dist sc False] by simp_all
    have v: "selection_value st (last sels) \<noteq> None" using p l(2) by simp
    have "length sels = 1 \<Longrightarrow> hd sels = last sels"
      by (cases sels) auto
    moreover have "st \<noteq> None" using v by (rule selection_value_Some)
    ultimately show ?thesis using l v by auto
  qed
qed

lemma state_set_keeps_sync:
  assumes sync: "in_sync rt call cls"
  shows "in_sync (state_set v rt) call cls"
proof (cases "rt_state rt = None \<and> v = None")
  case True
  then show ?thesis using sync by (simp add: state_set_def)
next
  case False
  let ?sels = "nullish (rt_selections rt) []"
  have ids: "map sub_id (rt_subs rt) = [call]" and cs: "map sub_clients (rt_subs rt) = [cls]"
    and dist: "distinct (map sel_id ?sels)" and fn: "rt_cleanupFn rt = Some (call, cls)"
    using sync by (simp_all add: in_sync_def)
  obtain cur where subs: "rt_subs rt = [\<lparr> sub_id = call, sub_clients = cls, sub_currentClause = cur \<rparr>]"
    using single_subscription [OF ids cs] .
  obtain cur' ws where sc: "sync_clauses (rt_source rt) cls v ?sels cur = (cur', ws)"
    by (cases "sync_clauses (rt_source rt) cls v ?sels cur")
  let ?rt1 = "rt \<lparr> rt_state := v \<rparr>"
  have n: "notify ?rt1 =
           ?rt1 \<lparr> rt_subs := [\<lparr> sub_id = call, sub_clients = cls, sub_currentClause = cur' \<rparr>],
                  rt_filter := foldl (\<lambda>f c. filter_update c f) (rt_filter ?rt1) ws,
                  rt_trace := rt_trace ?rt1 @ map FilterUpdate ws \<rparr>"
    by (rule notify_single [where cur = cur]) (use subs sc in simp_all)
  have eq: "state_set v rt = notify ?rt1" using False unfolding state_set_def by (simp only: if_False)
  have pre: "holds_clause (rt_source rt) (rt_filter rt) \<Longrightarrow>
                ?sels \<noteq> [] \<and> (length ?sels = 1 \<longrightarrow> cur \<noteq> Some (sel_id (hd ?sels), None))"
    using sync subs by (auto simp: in_sync_def split: if_splits)
  have keep: "holds_clause (rt_source rt) (foldl (\<lambda>f c. filter_update c f) (rt_filter rt) ws) \<Longrightarrow>
     v \<noteq> None \<and> ?sels \<noteq> [] \<and> (length ?sels = 1 \<longrightarrow> cur' \<noteq> Some (sel_id (hd ?sels), None))"
    using sync_clauses_keeps_sync [OF dist sc pre] by blast
  show ?thesis
    unfolding eq n using fn dist keep by (auto simp: in_sync_def)
qed

lemma distinct_number_selections: "distinct (map sel_id (number_selections n ks))"
proof -
  have "map sel_id (number_selections n ks) = map (\<lambda>i. n + i) [0..<length ks]"
    by (auto simp: number_selections_def split: prod.splits intro!: nth_equalityI)
  then show ?thesis by (simp add: distinct_map)
qed

lemma build_and_subscribe_in_sync:
  assumes idle: "idle rt"
  shows "in_sync (build_and_subscribe compiler call spec rt) call
           [rt_next rt..<rt_next rt + build_clients compiler (spec_body spec)]"
proof -
  let ?n = "build_clients compiler (spec_body spec)"
  let ?cls = "[rt_next rt..<rt_next rt + ?n]"
  let ?sels = "number_selections (rt_next rt + ?n) (build_selections compiler (spec_body spec))"
  have subs: "rt_subs rt = []" and nh: "\<not> holds_clause (rt_source rt) (rt_filter rt)"
    using idle by (simp_all add: idle_def)
  obtain cur ws where sc: "sync_clauses (rt_source rt) ?cls (rt_state rt) ?sels None = (cur, ws)"
    by (cases "sync_clauses (rt_source rt) ?cls (rt_state rt) ?sels None")
  have dist: "distinct (map sel_id ?sels)" by (rule distinct_number_selections)
  have eq: "build_and_subscribe compiler call spec rt =
      rt \<lparr> rt_outputs := Some call, rt_next := rt_next rt + ?n + length ?sels,
           rt_selections := Some ?sels,
           rt_subs := [\<lparr> sub_id = call, sub_clients = ?cls, sub_currentClause = cur \<rparr>],
           rt_filter := foldl (\<lambda>f c. filter_update c f) (rt_filter rt) ws,
           rt_trace := rt_trace rt @ map ClientCreate ?cls @ [PublishOutputs call, PublishSelections call] @
                       map FilterUpdate ws,
           rt_cleanupFn := Some (call, ?cls) \<rparr>"
    using subs sc
    by (simp add: build_and_subscribe_def Let_def log_events_def selections_set_def notify_def
          write_clauses_def)
  have keep: "holds_clause (rt_source rt) (foldl (\<lambda>f c. filter_update c f) (rt_filter rt) ws) \<Longrightarrow>
     rt_state rt \<noteq> None \<and> ?sels \<noteq> [] \<and> (length ?sels = 1 \<longrightarrow> cur \<noteq> Some (sel_id (hd ?sels), None))"
    using sync_clauses_keeps_sync [OF dist sc] nh by blast
  show ?thesis
    unfolding eq using dist keep by (auto simp: in_sync_def nullish_def)
qed

lemma setSpec_resume_idle:
  assumes "idle rt"
  shows "idle (setSpec_resume compiler call rt) \<or>
         (\<exists>cls. in_sync (setSpec_resume compiler call rt) call cls)"
proof (cases "map_of (rt_pending rt) call")
  case None
  then show ?thesis using assms by (simp add: setSpec_resume_def)
next
  case (Some spec)
  let ?rt0 = "rt \<lparr> rt_pending := filter (\<lambda>p. fst p \<noteq> call) (rt_pending rt) \<rparr>"
  have i0: "idle ?rt0" using assms by (simp add: idle_def)
  show ?thesis
  proof (cases "not_identical (rt_spec rt) spec")
    case True
    then show ?thesis using Some i0 by (simp add: setSpec_resume_def Let_def)
  next
    case False
    then have "setSpec_resume compiler call rt = build_and_subscribe compiler call spec ?rt0"
      using Some by (simp add: setSpec_resume_def Let_def)
    then show ?thesis using build_and_subscribe_in_sync [OF i0, of compiler call spec] by auto
  qed
qed

lemma new_runtime_idle: "\<not> holds_clause src others \<Longrightarrow> idle (new_runtime src others)"
  by (simp add: idle_def new_runtime_def)

lemma cleanup_idle: "idle rt \<Longrightarrow> idle (cleanup rt)"
  by (simp add: idle_def cleanup_def)

lemma stale_completion_discarded:
  assumes "map_of (rt_pending rt) call = Some spec" and "not_identical (rt_spec rt) spec"
  shows "setSpec_resume compiler call rt = rt \<lparr> rt_pending := filter (\<lambda>p. fst p \<noteq> call) (rt_pending rt) \<rparr>"
  using assms by (simp add: setSpec_resume_def Let_def)

subsection \<open>Runs\<close>

lemmas runtime_eval =
  setSpec_begin_def setSpec_resume_def new_runtime_def deepEquals_spec_def not_identical_def
  cleanup_def run_cleanupFn_def destroy_def build_and_subscribe_def example_compiler_def
  number_selections_def log_events_def selections_set_def state_set_def notify_def nullish_def
  write_clauses_def selection_value_def written_clause_def filter_update_def clearing_def Let_def

lemma brushed_eval:
  "brushed =
     \<lparr> rt_source = 7, rt_spec = Some specA, rt_cleanupFn = Some (0, [1]), rt_outputs = Some 0,
       rt_selections = Some [\<lparr> sel_id = 2, sel_key = ''brush'', sel_predicate = id \<rparr>],
       rt_state = Some [''brush'' \<mapsto> 5],
       rt_subs = [\<lparr> sub_id = 0, sub_clients = [1], sub_currentClause = Some (2, Some 5) \<rparr>],
       rt_pending = [],
       rt_filter = [\<lparr> source = 7, clients = [1], clause_value = Some 5, predicate = Some 5 \<rparr>],
       rt_trace = [ClientCreate 1, PublishOutputs 0, PublishSelections 0,
                   FilterUpdate (clearing 7 [1]),
                   FilterUpdate \<lparr> source = 7, clients = [1], clause_value = Some 5, predicate = Some 5 \<rparr>],
       rt_next = 3 \<rparr>"
  by (simp add: brushed_def specA_def runtime_eval)

lemma brushed_in_sync: "in_sync brushed 0 [1]"
  by (simp add: brushed_eval in_sync_def holds_clause_def nullish_def)

text \<open>
  A chart without selections: its clients are destroyed and no clearing clause is
  written, neither before nor after; the runtime never wrote a clause.
\<close>

theorem destroy_without_selection_writes_no_clause:
  "rt_trace (destroy built_without_selection) =
     [ClientCreate 1, ClientCreate 2, PublishOutputs 0, PublishSelections 0,
      SourceReset, Unsubscribe 0, ClientDestroy 1, ClientDestroy 2, ClearOutputs]"
  by (simp add: built_without_selection_def bars_spec_def runtime_eval upt_rec)

lemma three_calls_eval:
  "three_calls =
     \<lparr> rt_source = 7, rt_spec = Some specA, rt_cleanupFn = None, rt_outputs = None,
       rt_selections = None, rt_state = None, rt_subs = [],
       rt_pending = [(0, specA), (1, specB), (2, specA)],
       rt_filter = [], rt_trace = [], rt_next = 3 \<rparr>"
  by (simp add: three_calls_def specA_def specB_def runtime_eval)

lemma stale_call_builds:
  "setSpec_resume example_compiler 0 three_calls =
     \<lparr> rt_source = 7, rt_spec = Some specA, rt_cleanupFn = Some (0, [3]), rt_outputs = Some 0,
       rt_selections = Some [\<lparr> sel_id = 4, sel_key = ''brush'', sel_predicate = id \<rparr>],
       rt_state = None,
       rt_subs = [\<lparr> sub_id = 0, sub_clients = [3], sub_currentClause = Some (4, None) \<rparr>],
       rt_pending = [(1, specB), (2, specA)],
       rt_filter = [],
       rt_trace = [ClientCreate 3, PublishOutputs 0, PublishSelections 0,
                   FilterUpdate (clearing 7 [3])],
       rt_next = 5 \<rparr>"
  by (simp add: three_calls_eval specA_def specB_def runtime_eval)

lemma second_build_on_top:
  "rt_trace (destroy (setSpec_resume example_compiler 2 (setSpec_resume example_compiler 0 three_calls))) =
     [ClientCreate 3, PublishOutputs 0, PublishSelections 0, FilterUpdate (clearing 7 [3]),
      ClientCreate 5, PublishOutputs 2, PublishSelections 2,
      FilterUpdate (clearing 7 [3]), FilterUpdate (clearing 7 [5]),
      SourceReset, Unsubscribe 2, ClientDestroy 5, ClearOutputs]"
  by (simp only: stale_call_builds) (simp add: specA_def specB_def runtime_eval)

text \<open>
  Claim C2, on the code. \<open>setSpec specA\<close> is suspended, \<open>setSpec specB\<close> with a
  different content runs, and \<open>setSpec specA\<close> runs again with the same object, all
  before the first statistics arrive. When they arrive the first call finds its own
  object current and is not discarded: it creates a client and publishes outputs,
  selections and a clause. The third call later builds on top of it, and destroying
  the runtime leaves the first call's client alive.
\<close>

theorem superseded_completion_applied_when_object_is_set_again:
  "three_calls = setSpec_begin specA (setSpec_begin specB (setSpec_begin specA (new_runtime 7 []))) \<and>
   spec_body specB \<noteq> spec_body specA \<and>
   rt_pending three_calls = [(0, specA), (1, specB), (2, specA)] \<and>
   rt_trace (setSpec_resume example_compiler 0 three_calls) =
     [ClientCreate 3, PublishOutputs 0, PublishSelections 0, FilterUpdate (clearing 7 [3])] \<and>
   rt_outputs (setSpec_resume example_compiler 0 three_calls) = Some 0 \<and>
   ClientDestroy 3 \<notin> set (rt_trace (destroy (setSpec_resume example_compiler 2
                                (setSpec_resume example_compiler 0 three_calls))))"
proof -
  have c1: "three_calls = setSpec_begin specA (setSpec_begin specB (setSpec_begin specA (new_runtime 7 [])))"
    by (rule three_calls_def)
  have c2: "spec_body specB \<noteq> spec_body specA"
    by (simp add: specA_def specB_def)
  have c3: "rt_pending three_calls = [(0, specA), (1, specB), (2, specA)]"
    by (simp add: three_calls_eval)
  have c4: "rt_trace (setSpec_resume example_compiler 0 three_calls) =
     [ClientCreate 3, PublishOutputs 0, PublishSelections 0, FilterUpdate (clearing 7 [3])]"
    by (simp add: stale_call_builds)
  have c5: "rt_outputs (setSpec_resume example_compiler 0 three_calls) = Some 0"
    by (simp add: stale_call_builds)
  have c6: "ClientDestroy 3 \<notin> set (rt_trace (destroy (setSpec_resume example_compiler 2
                                (setSpec_resume example_compiler 0 three_calls))))"
    by (simp add: second_build_on_top)
  show ?thesis using c1 c2 c3 c4 c5 c6 by (intro conjI)
qed

lemma cleanup_next [simp]: "rt_next (cleanup rt) = rt_next rt"
  by (auto simp: cleanup_def run_cleanupFn_def state_set_def notify_def write_clauses_def
        log_events_def Let_def split: option.splits prod.splits)

lemma cleanup_pending [simp]: "rt_pending (cleanup rt) = rt_pending rt"
  by (auto simp: cleanup_def run_cleanupFn_def state_set_def notify_def write_clauses_def
        log_events_def Let_def split: option.splits prod.splits)

lemma cleanup_twice: "rt_cleanupFn (cleanup rt) = None"
  by (auto simp: cleanup_def split: option.splits)

text \<open>
  With nothing between \<open>setSpec specB\<close> and the arrival of the first call's
  statistics, the first call is discarded and changes nothing but the list of suspended
  calls.
\<close>

lemma superseded_once_discarded:
  assumes a: "\<not> deepEquals_spec specA (rt_spec rt)"
    and b: "spec_body specB \<noteq> spec_body specA"
    and ids: "spec_id specB \<noteq> spec_id specA"
    and fresh: "map_of (rt_pending rt) (rt_next rt) = None"
  shows "setSpec_resume compiler (rt_next rt) (setSpec_begin specB (setSpec_begin specA rt)) =
           (setSpec_begin specB (setSpec_begin specA rt))
             \<lparr> rt_pending := rt_pending rt @ [(rt_next rt + 1, specB)] \<rparr>"
proof -
  let ?rt1 = "setSpec_begin specA rt"
  let ?rt2 = "setSpec_begin specB ?rt1"
  have r1: "?rt1 = (cleanup rt) \<lparr> rt_spec := Some specA,
                       rt_pending := rt_pending rt @ [(rt_next rt, specA)],
                       rt_next := rt_next rt + 1 \<rparr>"
    using a by (simp add: setSpec_begin_def Let_def)
  have fn1: "rt_cleanupFn ?rt1 = None"
    by (simp add: r1 cleanup_twice)
  have c1: "cleanup ?rt1 = ?rt1 \<lparr> rt_spec := None \<rparr>"
    unfolding cleanup_def [of ?rt1] fn1 by simp
  have r2: "?rt2 = ?rt1 \<lparr> rt_spec := Some specB,
                       rt_pending := rt_pending rt @ [(rt_next rt, specA), (rt_next rt + 1, specB)],
                       rt_next := rt_next rt + 2 \<rparr>"
    using b by (simp add: setSpec_begin_def [of specB] deepEquals_spec_def c1 Let_def) (simp add: r1)
  have look: "map_of (rt_pending ?rt2) (rt_next rt) = Some specA"
    using fresh by (simp add: r2 map_add_Some_iff)
  have ni: "not_identical (rt_spec ?rt2) specA"
    using ids by (simp add: r2 not_identical_def)
  have flt: "filter (\<lambda>p. fst p \<noteq> rt_next rt) (rt_pending rt) = rt_pending rt"
    using fresh by (force simp: filter_id_conv map_of_eq_None_iff)
  show ?thesis
    using look ni by (simp add: setSpec_resume_def Let_def) (simp add: r2 flt)
qed


subsection \<open>The invariant along orderly runs\<close>

lemma cleanup_in_sync_idle:
  assumes "in_sync rt call cls"
  shows "idle (cleanup rt)"
proof -
  obtain ws cur' where
    eq: "cleanup rt =
       rt \<lparr> rt_spec := None, rt_cleanupFn := None, rt_state := None, rt_subs := [],
            rt_filter := foldl (\<lambda>f c. filter_update c f) (rt_filter rt) ws,
            rt_trace := rt_trace rt @ [SourceReset] @ map FilterUpdate ws @ [Unsubscribe call] @
                        map ClientDestroy cls \<rparr>"
    and clr: "\<And>w. w \<in> set ws \<Longrightarrow> w = clearing (rt_source rt) cls"
    and ne: "holds_clause (rt_source rt) (rt_filter rt) \<Longrightarrow> ws \<noteq> []"
    using cleanup_in_sync [OF assms] by metis
  have src: "\<And>w. w \<in> set ws \<Longrightarrow> source w = rt_source rt"
  proof -
    fix w assume "w \<in> set ws"
    then have "w = clearing (rt_source rt) cls" by (rule clr)
    then show "source w = rt_source rt" by (simp add: clearing_def)
  qed
  have h: "holds_clause (rt_source rt) (foldl (\<lambda>f c. filter_update c f) (rt_filter rt) ws) \<longleftrightarrow>
             (if ws = [] then holds_clause (rt_source rt) (rt_filter rt) else predicate (last ws) \<noteq> None)"
    using src by (rule holds_clause_writes)
  have last: "ws \<noteq> [] \<Longrightarrow> predicate (last ws) = None"
    using clr [of "last ws"] by (simp add: clearing_def)
  have "\<not> holds_clause (rt_source rt) (rt_filter (cleanup rt))"
    using h ne last by (auto simp: eq)
  then show ?thesis by (simp add: idle_def eq)
qed

lemma state_set_idle: "idle rt \<Longrightarrow> idle (state_set v rt)"
  by (simp add: idle_def state_set_def notify_def write_clauses_def)

lemma selections_set_idle: "idle rt \<Longrightarrow> idle (selections_set v rt)"
  by (simp add: idle_def selections_set_def notify_def write_clauses_def)

lemma destroy_idle:
  assumes "idle (cleanup rt)"
  shows "idle (destroy rt)"
proof -
  have "idle (log_events [ClearOutputs] ((cleanup rt) \<lparr> rt_outputs := None \<rparr>))"
    using assms by (simp add: idle_def log_events_def)
  then show ?thesis
    unfolding destroy_def Let_def by (intro selections_set_idle state_set_idle)
qed

lemma setSpec_begin_idle:
  assumes "idle (cleanup rt)"
  shows "setSpec_begin spec rt = rt \<or> idle (setSpec_begin spec rt)"
  using assms by (simp add: setSpec_begin_def Let_def idle_def)

lemma other_write_idle:
  "idle rt \<Longrightarrow> source c \<noteq> rt_source rt \<Longrightarrow> idle (rt \<lparr> rt_filter := filter_update c (rt_filter rt) \<rparr>)"
  by (auto simp: idle_def holds_clause_iff filter_update_def)

lemma other_write_in_sync:
  assumes "in_sync rt call cls" and "source c \<noteq> rt_source rt"
  shows "in_sync (rt \<lparr> rt_filter := filter_update c (rt_filter rt) \<rparr>) call cls"
proof -
  have "holds_clause (rt_source rt) (filter_update c (rt_filter rt)) \<longleftrightarrow>
        holds_clause (rt_source rt) (rt_filter rt)"
    using assms(2) by (auto simp: holds_clause_iff filter_update_def)
  then show ?thesis using assms(1) by (simp add: in_sync_def)
qed

lemma setSpec_resume_stale_in_sync:
  assumes "in_sync rt call' cls"
    and "case map_of (rt_pending rt) call of None \<Rightarrow> True | Some spec \<Rightarrow> not_identical (rt_spec rt) spec"
  shows "in_sync (setSpec_resume compiler call rt) call' cls"
  using assms by (auto simp: setSpec_resume_def Let_def in_sync_def split: option.splits)

text \<open>
  Every state of an orderly run is idle or in sync: the hypothesis of the cleanup
  theorem holds whenever a chart is built in such a run.
\<close>

theorem orderly_idle_or_in_sync:
  assumes "orderly compiler rt"
  shows "idle rt \<or> (\<exists>call cls. in_sync rt call cls)"
  using assms
proof (induction rule: orderly.induct)
  case (created src others)
  then show ?case by (simp add: new_runtime_idle)
next
  case (state_changed rt v)
  then show ?case using state_set_idle state_set_keeps_sync by blast
next
  case (spec_set rt spec)
  have "idle (cleanup rt)"
    using spec_set.IH cleanup_idle cleanup_in_sync_idle by blast
  then show ?case using setSpec_begin_idle [of rt spec] spec_set.IH by auto
next
  case (statistics_arrived rt call)
  show ?case
  proof (cases "idle rt")
    case True
    then show ?thesis using setSpec_resume_idle [of rt compiler call] by blast
  next
    case False
    then obtain call' cls where s: "in_sync rt call' cls"
      using statistics_arrived.IH by blast
    then have "rt_cleanupFn rt \<noteq> None" by (simp add: in_sync_def)
    then have "case map_of (rt_pending rt) call of None \<Rightarrow> True | Some spec \<Rightarrow> not_identical (rt_spec rt) spec"
      using statistics_arrived.hyps(2) by auto
    then have "in_sync (setSpec_resume compiler call rt) call' cls"
      by (rule setSpec_resume_stale_in_sync [OF s])
    then show ?thesis by blast
  qed
next
  case (destroyed rt)
  have "idle (cleanup rt)"
    using destroyed.IH cleanup_idle cleanup_in_sync_idle by blast
  then show ?case using destroy_idle by blast
next
  case (other_chart_wrote rt c)
  then show ?case using other_write_idle other_write_in_sync by blast
qed


subsection \<open>Cleanup along orderly runs\<close>

lemma cleanup_not_built:
  assumes "rt_cleanupFn rt = None"
  shows "cleanup rt = rt \<lparr> rt_spec := None \<rparr>"
  using assms by (simp add: cleanup_def)

lemma destroy_after_idle_cleanup:
  assumes "idle (cleanup rt)"
  shows "rt_trace (destroy rt) = rt_trace (cleanup rt) @ [ClearOutputs]"
    and "rt_filter (destroy rt) = rt_filter (cleanup rt)"
proof -
  have sb: "rt_subs (cleanup rt) = []" using assms by (simp add: idle_def)
  have d: "rt_trace (destroy rt) = rt_trace (cleanup rt) @ [ClearOutputs] \<and>
           rt_filter (destroy rt) = rt_filter (cleanup rt)"
    using sb
    by (simp add: destroy_def Let_def state_set_def selections_set_def log_events_def
          notify_def write_clauses_def)
  show "rt_trace (destroy rt) = rt_trace (cleanup rt) @ [ClearOutputs]" using d by simp
  show "rt_filter (destroy rt) = rt_filter (cleanup rt)" using d by simp
qed

text \<open>
  Claim C1, as amended. Along an orderly run (the runtime starts with no clause of its
  source in the filter; the host changes the state, sets specifications and destroys
  the runtime; other charts write their own clauses; the statistics of a suspended call
  arrive only while no chart is built, unless the call is stale): the cleanup of a
  built chart resets the source and empties the state, on which the subscriber writes
  clearing clauses (value and predicate null, the runtime's source, the chart's
  clients) and nothing else, at least one if the filter holds a clause of this source;
  only then the subscription is removed and the chart's clients are destroyed, in this
  order. Without a built chart the cleanup writes nothing and destroys nothing. After
  the cleanup the filter holds no clause of this source, the clauses of other sources
  are as before, and no subscription is left. Replacing the specification by one that
  is not deep-equal and destroying the runtime both run this cleanup and write nothing
  more to the filter.
\<close>

theorem cleanup_clears_filter_before_destroying_clients:
  assumes "orderly compiler rt"
  shows "(case rt_cleanupFn rt of
            None \<Rightarrow> rt_trace (cleanup rt) = rt_trace rt \<and> rt_filter (cleanup rt) = rt_filter rt
          | Some (call, cls) \<Rightarrow>
              (\<exists>ws. rt_trace (cleanup rt) =
                      rt_trace rt @ [SourceReset] @ map FilterUpdate ws @ [Unsubscribe call] @
                      map ClientDestroy cls \<and>
                    set ws \<subseteq> {clearing (rt_source rt) cls} \<and>
                    (holds_clause (rt_source rt) (rt_filter rt) \<longrightarrow> ws \<noteq> []))) \<and>
         \<not> holds_clause (rt_source rt) (rt_filter (cleanup rt)) \<and>
         filter (\<lambda>c. source c \<noteq> rt_source rt) (rt_filter (cleanup rt)) =
           filter (\<lambda>c. source c \<noteq> rt_source rt) (rt_filter rt) \<and>
         rt_subs (cleanup rt) = [] \<and>
         (\<not> deepEquals_spec spec (rt_spec rt) \<longrightarrow>
            rt_trace (setSpec_begin spec rt) = rt_trace (cleanup rt) \<and>
            rt_filter (setSpec_begin spec rt) = rt_filter (cleanup rt)) \<and>
         rt_trace (destroy rt) = rt_trace (cleanup rt) @ [ClearOutputs] \<and>
         rt_filter (destroy rt) = rt_filter (cleanup rt)"
proof -
  have bg: "\<not> deepEquals_spec spec (rt_spec rt) \<longrightarrow>
        rt_trace (setSpec_begin spec rt) = rt_trace (cleanup rt) \<and>
        rt_filter (setSpec_begin spec rt) = rt_filter (cleanup rt)"
    by (simp add: setSpec_begin_def Let_def)
  consider "idle rt" | call cls where "in_sync rt call cls"
    using orderly_idle_or_in_sync [OF assms] by blast
  then show ?thesis
  proof cases
    case 1
    then have fn: "rt_cleanupFn rt = None" and nh: "\<not> holds_clause (rt_source rt) (rt_filter rt)"
      and sb: "rt_subs rt = []"
      by (simp_all add: idle_def)
    have c: "cleanup rt = rt \<lparr> rt_spec := None \<rparr>" using fn by (rule cleanup_not_built)
    have idl: "idle (cleanup rt)" using 1 by (rule cleanup_idle)
    show ?thesis
      using fn nh sb bg destroy_after_idle_cleanup [OF idl] by (simp add: c)
  next
    case 2
    then have fn: "rt_cleanupFn rt = Some (call, cls)" by (simp add: in_sync_def)
    have idl: "idle (cleanup rt)" using 2 by (rule cleanup_in_sync_idle)
    obtain ws where
      tr: "rt_trace (cleanup rt) =
         rt_trace rt @ [SourceReset] @ map FilterUpdate ws @ [Unsubscribe call] @ map ClientDestroy cls"
      and sub: "set ws \<subseteq> {clearing (rt_source rt) cls}"
      and ne: "holds_clause (rt_source rt) (rt_filter rt) \<longrightarrow> ws \<noteq> []"
      and nh: "\<not> holds_clause (rt_source rt) (rt_filter (cleanup rt))"
      and oth: "filter (\<lambda>c. source c \<noteq> rt_source rt) (rt_filter (cleanup rt)) =
         filter (\<lambda>c. source c \<noteq> rt_source rt) (rt_filter rt)"
      using cleanup_of_built_chart [OF 2, of spec] by blast
    have sb: "rt_subs (cleanup rt) = []" using idl by (simp add: idle_def)
    have first: "\<exists>ws. rt_trace (cleanup rt) =
                      rt_trace rt @ [SourceReset] @ map FilterUpdate ws @ [Unsubscribe call] @
                      map ClientDestroy cls \<and>
                    set ws \<subseteq> {clearing (rt_source rt) cls} \<and>
                    (holds_clause (rt_source rt) (rt_filter rt) \<longrightarrow> ws \<noteq> [])"
      using tr sub ne by blast
    show ?thesis
      using first nh oth sb bg destroy_after_idle_cleanup [OF idl] by (simp add: fn)
  qed
qed

lemma brushed_orderly: "orderly example_compiler brushed"
proof -
  have 0: "orderly example_compiler (new_runtime 7 [] :: (nat \<times> string list, nat, nat) Runtime)"
    by (rule orderly.created) (simp add: holds_clause_def)
  have 1: "orderly example_compiler (setSpec_begin specA (new_runtime 7 []))"
    using 0 by (rule orderly.spec_set)
  have "rt_cleanupFn (setSpec_begin specA (new_runtime 7 [] :: (nat \<times> string list, nat, nat) Runtime)) = None"
    by (simp add: runtime_eval)
  then have 2: "orderly example_compiler
                  (setSpec_resume example_compiler 0 (setSpec_begin specA (new_runtime 7 [])))"
    using 1 by (intro orderly.statistics_arrived) simp_all
  show ?thesis unfolding brushed_def using 2 by (rule orderly.state_changed)
qed

text \<open>
  The chart of \<open>specA\<close> with an active brush is reached by an orderly run; its cleanup
  writes a clearing clause before it destroys client 1.
\<close>

theorem cleanup_clears_filter_before_destroying_clients_witness:
  "orderly example_compiler brushed \<and>
   rt_cleanupFn brushed = Some (0, [1]) \<and>
   holds_clause 7 (rt_filter brushed) \<and>
   (\<exists>ws. rt_trace (cleanup brushed) =
           rt_trace brushed @ [SourceReset] @ map FilterUpdate ws @ [Unsubscribe 0] @
           map ClientDestroy [1] \<and>
         set ws \<subseteq> {clearing 7 [1]} \<and> ws \<noteq> []) \<and>
   \<not> holds_clause 7 (rt_filter (cleanup brushed))"
proof -
  have src: "rt_source brushed = 7" and fn: "rt_cleanupFn brushed = Some (0, [1])"
    by (simp_all add: brushed_eval)
  have h: "holds_clause 7 (rt_filter brushed)"
    by (simp add: brushed_eval holds_clause_def)
  have "(\<exists>ws. rt_trace (cleanup brushed) =
           rt_trace brushed @ [SourceReset] @ map FilterUpdate ws @ [Unsubscribe 0] @
           map ClientDestroy [1] \<and>
         set ws \<subseteq> {clearing 7 [1]} \<and>
         (holds_clause 7 (rt_filter brushed) \<longrightarrow> ws \<noteq> [])) \<and>
        \<not> holds_clause 7 (rt_filter (cleanup brushed))"
    using cleanup_clears_filter_before_destroying_clients [OF brushed_orderly, of specB]
    unfolding src fn by simp
  then show ?thesis using brushed_orderly fn h by blast
qed
end
